theory Spec2Isabelle
  imports Main "HOL-Library.Multiset"
begin

section \<open>Sliding window maximum with a monotonic deque (script.c)\<close>

text \<open>
  The program keeps a deque of indices into the input array in a flat buffer with two
  cursors that are never reduced modulo the capacity, and prints one maximum per window.
  The embedding follows script.c function by function. What C leaves undefined is a value
  of the model: an access outside an allocated block, a read of a cell that was never
  written, and a signed subtraction whose result does not fit an \<open>int\<close>.
\<close>

subsection \<open>Undefined behaviour as a value\<close>

datatype fault = OutOfBounds | Uninitialised | Overflow

text \<open>The \<open>int\<close> of the program is taken to be 32 bits wide.\<close>

definition INT_MAX :: int where
  "INT_MAX = 2147483647"

definition INT_MIN :: int where
  "INT_MIN = - 2147483648"

text \<open>
  The two subtractions that involve the caller's \<open>k\<close> (\<open>i - k\<close> and \<open>k - 1\<close>) are the
  only arithmetic whose range depends on the input; they are checked. The cursor
  increments and decrements stay within \<open>-1 .. n\<close>: every state the scan passes
  through is well formed (\<open>dq_wf\<close>, lemma \<open>dq_wf_cursor_range\<close> below), and \<open>n\<close> is
  an \<open>int\<close>.
\<close>

definition int_sub :: "int \<Rightarrow> int \<Rightarrow> fault + int" where
  "int_sub a b =
     (if INT_MIN \<le> a - b \<and> a - b \<le> INT_MAX then Inr (a - b) else Inl Overflow)"

text \<open>\<open>nums[j]\<close>: the caller's array has \<open>length nums\<close> cells.\<close>

definition read_nums :: "int list \<Rightarrow> int \<Rightarrow> fault + int" where
  "read_nums nums j =
     (if 0 \<le> j \<and> j < int (length nums) then Inr (nums ! nat j) else Inl OutOfBounds)"

subsection \<open>The deque (lines 4--51)\<close>

text \<open>
  \<open>data\<close> is the malloc'ed block: one cell per unit of capacity, \<open>None\<close> while the
  cell has not been written.
\<close>

record Deque =
  dq_data :: "int option list"
  dq_front :: int
  dq_rear :: int
  dq_size :: int

definition createDeque :: "int \<Rightarrow> Deque" where
  "createDeque capacity =
     \<lparr>dq_data = replicate (nat capacity) None, dq_front = 0, dq_rear = - 1, dq_size = 0\<rparr>"

definition isEmpty :: "Deque \<Rightarrow> bool" where
  "isEmpty dq = (dq_size dq = 0)"

text \<open>\<open>dq->data[p]\<close> read as an rvalue.\<close>

definition read_data :: "Deque \<Rightarrow> int \<Rightarrow> fault + int" where
  "read_data dq p =
     (if 0 \<le> p \<and> p < int (length (dq_data dq))
      then (case dq_data dq ! nat p of None \<Rightarrow> Inl Uninitialised | Some v \<Rightarrow> Inr v)
      else Inl OutOfBounds)"

definition pushBack :: "Deque \<Rightarrow> int \<Rightarrow> fault + Deque" where
  "pushBack dq val =
     (let r = dq_rear dq + 1 in
      if 0 \<le> r \<and> r < int (length (dq_data dq))
      then Inr (dq\<lparr>dq_rear := r, dq_data := (dq_data dq)[nat r := Some val],
                    dq_size := dq_size dq + 1\<rparr>)
      else Inl OutOfBounds)"

definition popFront :: "Deque \<Rightarrow> Deque" where
  "popFront dq = dq\<lparr>dq_front := dq_front dq + 1, dq_size := dq_size dq - 1\<rparr>"

definition popBack :: "Deque \<Rightarrow> Deque" where
  "popBack dq = dq\<lparr>dq_rear := dq_rear dq - 1, dq_size := dq_size dq - 1\<rparr>"

definition front :: "Deque \<Rightarrow> fault + int" where
  "front dq = read_data dq (dq_front dq)"

text \<open>\<open>back\<close> of the source; the name is reserved in Isabelle.\<close>

definition back_dq :: "Deque \<Rightarrow> fault + int" where
  "back_dq dq = read_data dq (dq_rear dq)"

subsection \<open>The scan (lines 53--71)\<close>

text \<open>
  The state of the scan is the deque and what has been printed so far. \<open>trace\<close> is
  instrumentation: every call of \<open>pushBack\<close>, \<open>popFront\<close> and \<open>popBack\<close> made by the
  scan is logged with the index concerned (the pushed \<open>i\<close>, or the value of \<open>front(dq)\<close>
  or \<open>back(dq)\<close> that the loop condition has just read). Nothing reads the trace.
\<close>

datatype dq_op = PushBack int | PopFront int | PopBack int

record scan =
  deque :: Deque
  printed :: "int list"
  trace :: "dq_op list"

text \<open>Lines 57--58: \<open>if (!isEmpty(dq) && front(dq) <= i - k) popFront(dq);\<close>\<close>

definition remove_out_of_window :: "int \<Rightarrow> int \<Rightarrow> scan \<Rightarrow> fault + scan" where
  "remove_out_of_window k i s =
     (if isEmpty (deque s) then Inr s
      else case front (deque s) of
        Inl e \<Rightarrow> Inl e
      | Inr f \<Rightarrow>
          (case int_sub i k of
             Inl e \<Rightarrow> Inl e
           | Inr lim \<Rightarrow>
               if f \<le> lim
               then Inr (s\<lparr>deque := popFront (deque s), trace := trace s @ [PopFront f]\<rparr>)
               else Inr s))"

text \<open>Lines 61--62: \<open>while (!isEmpty(dq) && nums[back(dq)] < nums[i]) popBack(dq);\<close>\<close>

function remove_smaller_from_back :: "int list \<Rightarrow> int \<Rightarrow> scan \<Rightarrow> fault + scan" where
  "remove_smaller_from_back nums i s =
     (if isEmpty (deque s) then Inr s
      else case back_dq (deque s) of
        Inl e \<Rightarrow> Inl e
      | Inr b \<Rightarrow>
          (case read_nums nums b of
             Inl e \<Rightarrow> Inl e
           | Inr vb \<Rightarrow>
               (case read_nums nums i of
                  Inl e \<Rightarrow> Inl e
                | Inr vi \<Rightarrow>
                    if vb < vi
                    then remove_smaller_from_back nums i
                           (s\<lparr>deque := popBack (deque s), trace := trace s @ [PopBack b]\<rparr>)
                    else Inr s)))"
  by pat_completeness auto
termination
proof (relation "measure (\<lambda>(nums, i, s). nat (dq_rear (deque s) + 1))")
  show "wf (measure (\<lambda>(nums, i, s). nat (dq_rear (deque s) + 1)))"
    by simp
next
  fix nums :: "int list" and i :: int and s :: scan and b vb vi :: int
  assume "back_dq (deque s) = Inr b"
  then have "0 \<le> dq_rear (deque s)"
    by (simp add: back_dq_def read_data_def split: if_splits)
  then show "((nums, i, s\<lparr>deque := popBack (deque s), trace := trace s @ [PopBack b]\<rparr>),
              (nums, i, s)) \<in> measure (\<lambda>(nums, i, s). nat (dq_rear (deque s) + 1))"
    by (simp add: popBack_def)
qed

text \<open>Line 64: \<open>pushBack(dq, i);\<close>\<close>

definition push_current :: "int \<Rightarrow> scan \<Rightarrow> fault + scan" where
  "push_current i s =
     (case pushBack (deque s) i of
        Inl e \<Rightarrow> Inl e
      | Inr dq' \<Rightarrow> Inr (s\<lparr>deque := dq', trace := trace s @ [PushBack i]\<rparr>))"

text \<open>Lines 67--68: \<open>if (i >= k - 1) printf("%d ", nums[front(dq)]);\<close>\<close>

definition output_if_window_seen :: "int list \<Rightarrow> int \<Rightarrow> int \<Rightarrow> scan \<Rightarrow> fault + scan" where
  "output_if_window_seen nums k i s =
     (case int_sub k 1 of
        Inl e \<Rightarrow> Inl e
      | Inr lim \<Rightarrow>
          if i \<ge> lim
          then (case front (deque s) of
                  Inl e \<Rightarrow> Inl e
                | Inr f \<Rightarrow>
                    (case read_nums nums f of
                       Inl e \<Rightarrow> Inl e
                     | Inr v \<Rightarrow> Inr (s\<lparr>printed := printed s @ [v]\<rparr>)))
          else Inr s)"

text \<open>The body of the \<open>for\<close> loop, lines 56--68, for one position \<open>i\<close>.\<close>

definition loop_body :: "int list \<Rightarrow> int \<Rightarrow> int \<Rightarrow> scan \<Rightarrow> fault + scan" where
  "loop_body nums k i s =
     (case remove_out_of_window k i s of
        Inl e \<Rightarrow> Inl e
      | Inr s1 \<Rightarrow>
          (case remove_smaller_from_back nums i s1 of
             Inl e \<Rightarrow> Inl e
           | Inr s2 \<Rightarrow>
               (case push_current i s2 of
                  Inl e \<Rightarrow> Inl e
                | Inr s3 \<Rightarrow> output_if_window_seen nums k i s3)))"

text \<open>Line 55: \<open>for (int i = 0; i < n; i++)\<close>, entered at position \<open>i\<close> with state \<open>s\<close>.\<close>

function for_loop :: "int list \<Rightarrow> int \<Rightarrow> int \<Rightarrow> int \<Rightarrow> scan \<Rightarrow> fault + scan" where
  "for_loop nums n k i s =
     (if i < n
      then (case loop_body nums k i s of
              Inl e \<Rightarrow> Inl e
            | Inr s' \<Rightarrow> for_loop nums n k (i + 1) s')
      else Inr s)"
  by pat_completeness auto
termination
  by (relation "measure (\<lambda>(nums, n, k, i, s). nat (n - i))") auto

text \<open>Line 54: the state in which the loop is entered.\<close>

definition initial_scan :: "int \<Rightarrow> scan" where
  "initial_scan n = \<lparr>deque = createDeque n, printed = [], trace = []\<rparr>"

text \<open>
  \<open>scan_upto nums n k m\<close> runs the loop of \<open>slidingWindowMaximum(nums, n, k)\<close> for the
  positions \<open>0 .. m - 1\<close> only: the state in which the full scan reaches position \<open>m\<close>
  (lemma \<open>for_loop_split\<close> below). For \<open>m = n\<close> it is the state at line 70.
\<close>

definition scan_upto :: "int list \<Rightarrow> int \<Rightarrow> int \<Rightarrow> int \<Rightarrow> fault + scan" where
  "scan_upto nums n k m = for_loop nums m k 0 (initial_scan n)"

text \<open>
  \<open>slidingWindowMaximum\<close>: what the call prints, in order, or the fault it runs into.
  \<open>destroyDeque\<close> only frees the two blocks.
\<close>

definition slidingWindowMaximum :: "int list \<Rightarrow> int \<Rightarrow> int \<Rightarrow> fault + int list" where
  "slidingWindowMaximum nums n k =
     (case for_loop nums n k 0 (initial_scan n) of
        Inl e \<Rightarrow> Inl e
      | Inr s \<Rightarrow> Inr (printed s))"

subsection \<open>The reads of the deque\<close>

text \<open>
  The three steps that call \<open>front(dq)\<close> or \<open>back(dq)\<close>, with a log of these calls. Each
  takes the log so far and returns it extended, for every call of \<open>front\<close> or \<open>back\<close> that
  the step makes, by the cell of \<open>data\<close> that the call reads (\<open>dq->front\<close>, respectively
  \<open>dq->rear\<close>) and the value of \<open>dq->size\<close> at the call. The log is instrumentation, as the
  trace is: without it each function is the step above (lemmas
  \<open>remove_out_of_window_reads_state\<close>, \<open>remove_smaller_from_back_reads_state\<close> and
  \<open>output_if_window_seen_reads_state\<close> below).
\<close>

type_synonym dq_read = "int \<times> int"

definition remove_out_of_window_reads ::
  "int \<Rightarrow> int \<Rightarrow> scan \<Rightarrow> dq_read list \<Rightarrow> fault + scan \<times> dq_read list" where
  "remove_out_of_window_reads k i s r =
     (if isEmpty (deque s) then Inr (s, r)
      else case front (deque s) of
        Inl e \<Rightarrow> Inl e
      | Inr f \<Rightarrow>
          (case int_sub i k of
             Inl e \<Rightarrow> Inl e
           | Inr lim \<Rightarrow>
               if f \<le> lim
               then Inr (s\<lparr>deque := popFront (deque s), trace := trace s @ [PopFront f]\<rparr>,
                         r @ [(dq_front (deque s), dq_size (deque s))])
               else Inr (s, r @ [(dq_front (deque s), dq_size (deque s))])))"

function remove_smaller_from_back_reads ::
  "int list \<Rightarrow> int \<Rightarrow> scan \<Rightarrow> dq_read list \<Rightarrow> fault + scan \<times> dq_read list" where
  "remove_smaller_from_back_reads nums i s r =
     (if isEmpty (deque s) then Inr (s, r)
      else case back_dq (deque s) of
        Inl e \<Rightarrow> Inl e
      | Inr b \<Rightarrow>
          (case read_nums nums b of
             Inl e \<Rightarrow> Inl e
           | Inr vb \<Rightarrow>
               (case read_nums nums i of
                  Inl e \<Rightarrow> Inl e
                | Inr vi \<Rightarrow>
                    if vb < vi
                    then remove_smaller_from_back_reads nums i
                           (s\<lparr>deque := popBack (deque s), trace := trace s @ [PopBack b]\<rparr>)
                           (r @ [(dq_rear (deque s), dq_size (deque s))])
                    else Inr (s, r @ [(dq_rear (deque s), dq_size (deque s))]))))"
  by pat_completeness auto
termination
proof (relation "measure (\<lambda>(nums, i, s, r). nat (dq_rear (deque s) + 1))")
  show "wf (measure (\<lambda>(nums, i, s, r). nat (dq_rear (deque s) + 1)))"
    by simp
next
  fix nums :: "int list" and i :: int and s :: scan and r :: "dq_read list" and b vb vi :: int
  assume "back_dq (deque s) = Inr b"
  then have "0 \<le> dq_rear (deque s)"
    by (simp add: back_dq_def read_data_def split: if_splits)
  then show "((nums, i, s\<lparr>deque := popBack (deque s), trace := trace s @ [PopBack b]\<rparr>,
               r @ [(dq_rear (deque s), dq_size (deque s))]),
              (nums, i, s, r)) \<in> measure (\<lambda>(nums, i, s, r). nat (dq_rear (deque s) + 1))"
    by (simp add: popBack_def)
qed

definition output_if_window_seen_reads ::
  "int list \<Rightarrow> int \<Rightarrow> int \<Rightarrow> scan \<Rightarrow> dq_read list \<Rightarrow> fault + scan \<times> dq_read list" where
  "output_if_window_seen_reads nums k i s r =
     (case int_sub k 1 of
        Inl e \<Rightarrow> Inl e
      | Inr lim \<Rightarrow>
          if i \<ge> lim
          then (case front (deque s) of
                  Inl e \<Rightarrow> Inl e
                | Inr f \<Rightarrow>
                    (case read_nums nums f of
                       Inl e \<Rightarrow> Inl e
                     | Inr v \<Rightarrow> Inr (s\<lparr>printed := printed s @ [v]\<rparr>,
                                     r @ [(dq_front (deque s), dq_size (deque s))])))
          else Inr (s, r))"

text \<open>A result of a logged step, the log forgotten.\<close>

definition without_reads :: "fault + scan \<times> dq_read list \<Rightarrow> fault + scan" where
  "without_reads x = (case x of Inl e \<Rightarrow> Inl e | Inr (s, r) \<Rightarrow> Inr s)"

subsection \<open>Notions the properties are stated with\<close>

text \<open>The indices held by the deque, front to back: cells \<open>front .. front + size - 1\<close>.\<close>

definition contents :: "Deque \<Rightarrow> int list" where
  "contents dq =
     map the (take (nat (dq_size dq)) (drop (nat (dq_front dq)) (dq_data dq)))"

text \<open>\<open>nums[j]\<close> for an index known to be in range.\<close>

definition val :: "int list \<Rightarrow> int \<Rightarrow> int" where
  "val nums j = nums ! nat j"

text \<open>The maximum of \<open>nums[j .. j + k - 1]\<close>.\<close>

definition window_max :: "int list \<Rightarrow> nat \<Rightarrow> nat \<Rightarrow> int" where
  "window_max nums j k = Max (set (take k (drop j nums)))"

text \<open>How often the trace pushes, respectively pops (from either end), the index \<open>x\<close>.\<close>

definition pushes :: "dq_op list \<Rightarrow> int \<Rightarrow> nat" where
  "pushes t x = length (filter (\<lambda>e. e = PushBack x) t)"

definition pops :: "dq_op list \<Rightarrow> int \<Rightarrow> nat" where
  "pops t x = length (filter (\<lambda>e. e = PopFront x \<or> e = PopBack x) t)"

text \<open>The window that ends at position \<open>i\<close>; it is shorter than \<open>k\<close> while \<open>i < k - 1\<close>.\<close>

definition window :: "int \<Rightarrow> int \<Rightarrow> int set" where
  "window k i = {max 0 (i - k + 1)..i}"

text \<open>\<open>j\<close> is an index of the window ending at \<open>i\<close> whose value is the window's maximum.\<close>

definition holds_max :: "int list \<Rightarrow> int \<Rightarrow> int \<Rightarrow> int \<Rightarrow> bool" where
  "holds_max nums k i j \<longleftrightarrow> j \<in> window k i \<and> (\<forall>j'\<in>window k i. val nums j' \<le> val nums j)"

subsection \<open>Notions used in the proofs\<close>

text \<open>
  A deque is well formed when its cursors describe a block of written cells inside the
  buffer: \<open>front .. rear\<close> with \<open>rear = front + size - 1\<close>.
\<close>

definition dq_wf :: "Deque \<Rightarrow> bool" where
  "dq_wf dq \<longleftrightarrow>
     0 \<le> dq_front dq \<and> 0 \<le> dq_size dq \<and> dq_rear dq = dq_front dq + dq_size dq - 1 \<and>
     dq_front dq + dq_size dq \<le> int (length (dq_data dq)) \<and>
     (\<forall>p. dq_front dq \<le> p \<and> p < dq_front dq + dq_size dq \<longrightarrow> dq_data dq ! nat p \<noteq> None)"

text \<open>
  What one position does to the list of stored indices: the front index removed by lines
  57--58 (if any) and what is left, the indices removed from the back by lines 61--62 and
  what is left.
\<close>

definition expired :: "int \<Rightarrow> int \<Rightarrow> int list \<Rightarrow> int list" where
  "expired k i cs = (if cs \<noteq> [] \<and> hd cs \<le> i - k then [hd cs] else [])"

definition expire :: "int \<Rightarrow> int \<Rightarrow> int list \<Rightarrow> int list" where
  "expire k i cs = (if cs \<noteq> [] \<and> hd cs \<le> i - k then tl cs else cs)"

definition popped_back :: "int list \<Rightarrow> int \<Rightarrow> int list \<Rightarrow> int list" where
  "popped_back nums i cs = takeWhile (\<lambda>d. val nums d < val nums i) (rev cs)"

definition keep_back :: "int list \<Rightarrow> int \<Rightarrow> int list \<Rightarrow> int list" where
  "keep_back nums i cs = rev (dropWhile (\<lambda>d. val nums d < val nums i) (rev cs))"

text \<open>
  The indices that the deque holds when the scan reaches position \<open>m\<close>: those of the last
  \<open>k\<close> positions before \<open>m\<close> that no later position before \<open>m\<close> exceeds.
\<close>

definition cand :: "int list \<Rightarrow> int \<Rightarrow> int \<Rightarrow> int set" where
  "cand nums k m =
     {j \<in> {max 0 (m - k)..<m}. \<forall>j' \<in> {j<..<m}. val nums j' \<le> val nums j}"

text \<open>The indices pushed, respectively popped, by a trace, in order.\<close>

fun pushed_of :: "dq_op list \<Rightarrow> int list" where
  "pushed_of [] = []"
| "pushed_of (PushBack x # t) = x # pushed_of t"
| "pushed_of (PopFront x # t) = pushed_of t"
| "pushed_of (PopBack x # t) = pushed_of t"

fun popped_of :: "dq_op list \<Rightarrow> int list" where
  "popped_of [] = []"
| "popped_of (PushBack x # t) = popped_of t"
| "popped_of (PopFront x # t) = x # popped_of t"
| "popped_of (PopBack x # t) = x # popped_of t"

text \<open>The invariant of the loop at position \<open>m\<close>, for a window size \<open>k \<ge> 1\<close>.\<close>

definition scan_inv :: "int list \<Rightarrow> int \<Rightarrow> int \<Rightarrow> scan \<Rightarrow> bool" where
  "scan_inv nums k m s \<longleftrightarrow>
     dq_wf (deque s) \<and> length (dq_data (deque s)) = length nums \<and> dq_rear (deque s) < m \<and>
     sorted_wrt (<) (contents (deque s)) \<and> set (contents (deque s)) = cand nums k m \<and>
     printed s = map (\<lambda>j. window_max nums j (nat k)) [0..<nat (m - k + 1)] \<and>
     pushed_of (trace s) = [0..m - 1] \<and>
     mset (popped_of (trace s)) + mset (contents (deque s)) = mset [0..m - 1]"

text \<open>
  For \<open>k < 1\<close> every stored index counts as out of the window: the deque holds the
  previous position only and every position is printed.
\<close>

definition unwindowed_inv :: "int list \<Rightarrow> int \<Rightarrow> scan \<Rightarrow> bool" where
  "unwindowed_inv nums m s \<longleftrightarrow>
     dq_wf (deque s) \<and> length (dq_data (deque s)) = length nums \<and> dq_rear (deque s) < m \<and>
     contents (deque s) = (if m = 0 then [] else [m - 1]) \<and> printed s = take (nat m) nums"

section \<open>The deque as a list of indices\<close>

lemma dq_wf_cursor_range:
  assumes "dq_wf dq"
  shows "0 \<le> dq_front dq \<and> dq_front dq \<le> int (length (dq_data dq)) \<and>
         - 1 \<le> dq_rear dq \<and> dq_rear dq < int (length (dq_data dq)) \<and>
         0 \<le> dq_size dq \<and> dq_size dq \<le> int (length (dq_data dq))"
  using assms unfolding dq_wf_def by linarith

lemma length_contents: "dq_wf dq \<Longrightarrow> length (contents dq) = nat (dq_size dq)"
  by (auto simp: dq_wf_def contents_def)

lemma nth_contents:
  assumes "dq_wf dq" "j < nat (dq_size dq)"
  shows "dq_data dq ! (nat (dq_front dq) + j) = Some (contents dq ! j)"
proof -
  from assms have l: "nat (dq_front dq) + j < length (dq_data dq)"
    by (auto simp: dq_wf_def)
  from assms(2) have "dq_front dq \<le> dq_front dq + int j \<and>
      dq_front dq + int j < dq_front dq + dq_size dq"
    by linarith
  with assms(1) have "dq_data dq ! nat (dq_front dq + int j) \<noteq> None"
    unfolding dq_wf_def by blast
  moreover from assms have "nat (dq_front dq + int j) = nat (dq_front dq) + j"
    by (auto simp: dq_wf_def nat_add_distrib)
  ultimately show ?thesis using assms l
    by (auto simp: contents_def)
qed

lemma contents_empty: "dq_wf dq \<Longrightarrow> contents dq = [] \<longleftrightarrow> isEmpty dq"
  using length_contents[of dq] by (auto simp: isEmpty_def dq_wf_def)

lemma front_contents:
  assumes "dq_wf dq" "\<not> isEmpty dq"
  shows "front dq = Inr (hd (contents dq))"
proof -
  from assms have pos: "0 < nat (dq_size dq)" by (auto simp: isEmpty_def dq_wf_def)
  from nth_contents[OF assms(1) pos] have "dq_data dq ! nat (dq_front dq) = Some (contents dq ! 0)"
    by simp
  moreover have "contents dq ! 0 = hd (contents dq)"
  proof -
    have "contents dq \<noteq> []" using length_contents[OF assms(1)] pos by auto
    then show ?thesis by (simp add: hd_conv_nth)
  qed
  moreover have "0 \<le> dq_front dq \<and> dq_front dq < int (length (dq_data dq))"
    using assms pos by (auto simp: dq_wf_def)
  ultimately show ?thesis by (simp add: front_def read_data_def)
qed

lemma back_contents:
  assumes "dq_wf dq" "\<not> isEmpty dq"
  shows "back_dq dq = Inr (last (contents dq))"
proof -
  from assms have pos: "0 < nat (dq_size dq)" by (auto simp: isEmpty_def dq_wf_def)
  then have lt: "nat (dq_size dq) - 1 < nat (dq_size dq)" by simp
  have "nat (dq_front dq) + (nat (dq_size dq) - 1) = nat (dq_rear dq)"
    using assms pos by (auto simp: dq_wf_def)
  with nth_contents[OF assms(1) lt]
  have "dq_data dq ! nat (dq_rear dq) = Some (contents dq ! (nat (dq_size dq) - 1))"
    by simp
  moreover have "contents dq ! (nat (dq_size dq) - 1) = last (contents dq)"
  proof -
    have "contents dq \<noteq> []" using length_contents[OF assms(1)] pos by auto
    then show ?thesis using length_contents[OF assms(1)] by (simp add: last_conv_nth)
  qed
  moreover have "0 \<le> dq_rear dq \<and> dq_rear dq < int (length (dq_data dq))"
    using assms pos by (auto simp: dq_wf_def)
  ultimately show ?thesis by (simp add: back_dq_def read_data_def)
qed

lemma popFront_contents:
  assumes "dq_wf dq" "\<not> isEmpty dq"
  shows "dq_wf (popFront dq)" "contents (popFront dq) = tl (contents dq)"
    "dq_data (popFront dq) = dq_data dq" "dq_rear (popFront dq) = dq_rear dq"
proof -
  from assms have pos: "0 < dq_size dq" by (auto simp: isEmpty_def dq_wf_def)
  show "dq_wf (popFront dq)" using assms(1) pos by (auto simp: dq_wf_def popFront_def)
  have "nat (dq_front dq + 1) = Suc (nat (dq_front dq))" using assms(1) by (auto simp: dq_wf_def)
  moreover have "nat (dq_size dq) = Suc (nat (dq_size dq - 1))" using pos by auto
  ultimately have "contents (popFront dq)
      = map the (take (nat (dq_size dq) - 1) (tl (drop (nat (dq_front dq)) (dq_data dq))))"
    by (simp add: contents_def popFront_def drop_Suc tl_drop)
  also have "\<dots> = map the (tl (take (nat (dq_size dq)) (drop (nat (dq_front dq)) (dq_data dq))))"
    by (simp only: tl_take)
  also have "\<dots> = tl (contents dq)"
    by (simp only: contents_def map_tl)
  finally show "contents (popFront dq) = tl (contents dq)" .
qed (simp_all add: popFront_def)

lemma popBack_contents:
  assumes "dq_wf dq" "\<not> isEmpty dq"
  shows "dq_wf (popBack dq)" "contents (popBack dq) = butlast (contents dq)"
    "dq_data (popBack dq) = dq_data dq" "dq_rear (popBack dq) < dq_rear dq"
    "dq_front (popBack dq) = dq_front dq"
proof -
  from assms have pos: "0 < dq_size dq" by (auto simp: isEmpty_def dq_wf_def)
  show "dq_wf (popBack dq)" using assms(1) pos by (auto simp: dq_wf_def popBack_def)
  have "nat (dq_size dq - 1) = nat (dq_size dq) - 1" using pos by auto
  moreover have "nat (dq_size dq) \<le> length (drop (nat (dq_front dq)) (dq_data dq))"
    using assms(1) by (auto simp: dq_wf_def)
  ultimately have "contents (popBack dq)
      = map the (butlast (take (nat (dq_size dq)) (drop (nat (dq_front dq)) (dq_data dq))))"
    by (simp add: contents_def popBack_def butlast_take)
  also have "\<dots> = butlast (contents dq)"
    by (simp only: contents_def map_butlast)
  finally show "contents (popBack dq) = butlast (contents dq)" .
qed (simp_all add: popBack_def)

lemma pushBack_contents:
  assumes "dq_wf dq" "dq_rear dq + 1 < int (length (dq_data dq))"
  shows "\<exists>dq'. pushBack dq v = Inr dq' \<and> dq_wf dq' \<and> contents dq' = contents dq @ [v] \<and>
           length (dq_data dq') = length (dq_data dq) \<and> dq_rear dq' = dq_rear dq + 1 \<and>
           dq_front dq' = dq_front dq \<and> dq_size dq' = dq_size dq + 1"
proof -
  let ?r = "dq_rear dq + 1"
  let ?dq' = "dq\<lparr>dq_rear := ?r, dq_data := (dq_data dq)[nat ?r := Some v], dq_size := dq_size dq + 1\<rparr>"
  from assms have r0: "0 \<le> ?r" and rr: "?r = dq_front dq + dq_size dq" by (auto simp: dq_wf_def)
  have push: "pushBack dq v = Inr ?dq'"
    using assms(2) r0 by (simp add: pushBack_def Let_def)
  have natr: "nat ?r = nat (dq_front dq) + nat (dq_size dq)"
    using assms(1) rr by (auto simp: dq_wf_def nat_add_distrib)
  have wf': "dq_wf ?dq'"
    using assms rr unfolding dq_wf_def
    by (auto simp: nth_list_update)
  have "take (nat (dq_size dq + 1)) (drop (nat (dq_front dq)) ((dq_data dq)[nat ?r := Some v]))
      = take (nat (dq_size dq)) (drop (nat (dq_front dq)) (dq_data dq)) @ [Some v]"
  proof -
    have a: "nat (dq_size dq + 1) = Suc (nat (dq_size dq))" using assms(1) by (auto simp: dq_wf_def)
    have b: "nat (dq_size dq) < length (drop (nat (dq_front dq)) ((dq_data dq)[nat ?r := Some v]))"
      using assms natr by (auto simp: dq_wf_def)
    have c: "drop (nat (dq_front dq)) ((dq_data dq)[nat ?r := Some v])
           = (drop (nat (dq_front dq)) (dq_data dq))[nat (dq_size dq) := Some v]"
      using natr by (simp add: drop_update_swap)
    show ?thesis
      unfolding a using b unfolding c
      by (simp add: take_Suc_conv_app_nth)
  qed
  then have "contents ?dq' = contents dq @ [v]"
    by (simp add: contents_def)
  with push wf' show ?thesis by simp
qed

section \<open>What each step of the loop body does\<close>

lemma int_sub_ok: "INT_MIN \<le> a - b \<Longrightarrow> a - b \<le> INT_MAX \<Longrightarrow> int_sub a b = Inr (a - b)"
  by (simp add: int_sub_def)

lemma read_nums_ok: "0 \<le> j \<Longrightarrow> j < int (length nums) \<Longrightarrow> read_nums nums j = Inr (val nums j)"
  by (simp add: read_nums_def val_def)

lemma remove_out_of_window_effect:
  assumes "dq_wf (deque s)" "INT_MIN \<le> i - k" "i - k \<le> INT_MAX"
  shows "\<exists>s1. remove_out_of_window k i s = Inr s1 \<and> dq_wf (deque s1) \<and>
           contents (deque s1) = expire k i (contents (deque s)) \<and>
           dq_data (deque s1) = dq_data (deque s) \<and> dq_rear (deque s1) = dq_rear (deque s) \<and>
           printed s1 = printed s \<and>
           trace s1 = trace s @ map PopFront (expired k i (contents (deque s)))"
proof (cases "isEmpty (deque s)")
  case True
  with assms(1) have "contents (deque s) = []" by (simp add: contents_empty)
  with True assms(1) show ?thesis
    by (simp add: remove_out_of_window_def expire_def expired_def)
next
  case False
  with assms(1) have ne: "contents (deque s) \<noteq> []" by (simp add: contents_empty)
  note f = front_contents[OF assms(1) False]
  note p = popFront_contents[OF assms(1) False]
  show ?thesis
    using False ne f p assms
    by (simp add: remove_out_of_window_def int_sub_ok expire_def expired_def)
qed

lemma remove_smaller_from_back_effect:
  assumes "dq_wf (deque s)"
    and "\<forall>d\<in>set (contents (deque s)). 0 \<le> d \<and> d < int (length nums)"
    and "0 \<le> i" "i < int (length nums)"
  shows "\<exists>s2. remove_smaller_from_back nums i s = Inr s2 \<and> dq_wf (deque s2) \<and>
           contents (deque s2) = keep_back nums i (contents (deque s)) \<and>
           dq_data (deque s2) = dq_data (deque s) \<and> dq_rear (deque s2) \<le> dq_rear (deque s) \<and>
           printed s2 = printed s \<and>
           trace s2 = trace s @ map PopBack (popped_back nums i (contents (deque s)))"
  using assms(1,2)
proof (induction "length (contents (deque s))" arbitrary: s)
  case 0
  then have e: "contents (deque s) = []" by simp
  with "0.prems"(1) have "isEmpty (deque s)" by (simp add: contents_empty)
  then show ?case using e "0.prems"(1)
    by (subst remove_smaller_from_back.simps) (simp add: keep_back_def popped_back_def)
next
  case (Suc l)
  then have ne: "contents (deque s) \<noteq> []" by auto
  then obtain xs b where cs: "contents (deque s) = xs @ [b]"
    by (meson rev_exhaust)
  from ne Suc.prems(1) have nonempty: "\<not> isEmpty (deque s)" by (simp add: contents_empty)
  have bk: "back_dq (deque s) = Inr b"
    using back_contents[OF Suc.prems(1) nonempty] cs by simp
  have rb: "read_nums nums b = Inr (val nums b)"
    using Suc.prems(2) cs by (simp add: read_nums_ok)
  have ri: "read_nums nums i = Inr (val nums i)"
    using assms(3,4) by (simp add: read_nums_ok)
  show ?case
  proof (cases "val nums b < val nums i")
    case False
    then show ?thesis
      using nonempty bk rb ri cs Suc.prems(1)
      by (subst remove_smaller_from_back.simps) (simp add: keep_back_def popped_back_def)
  next
    case True
    let ?s' = "s\<lparr>deque := popBack (deque s), trace := trace s @ [PopBack b]\<rparr>"
    note p = popBack_contents[OF Suc.prems(1) nonempty]
    have c': "contents (deque ?s') = xs" using p(2) cs by simp
    have "l = length (contents (deque ?s'))" using Suc.hyps(2) cs c' by simp
    moreover have "dq_wf (deque ?s')" using p(1) by simp
    moreover have "\<forall>d\<in>set (contents (deque ?s')). 0 \<le> d \<and> d < int (length nums)"
      using Suc.prems(2) cs c' by simp
    ultimately obtain s2 where s2: "remove_smaller_from_back nums i ?s' = Inr s2"
      "dq_wf (deque s2)" "contents (deque s2) = keep_back nums i (contents (deque ?s'))"
      "dq_data (deque s2) = dq_data (deque ?s')" "dq_rear (deque s2) \<le> dq_rear (deque ?s')"
      "printed s2 = printed ?s'"
      "trace s2 = trace ?s' @ map PopBack (popped_back nums i (contents (deque ?s')))"
      using Suc.hyps(1)[of ?s'] by blast
    have "remove_smaller_from_back nums i s = remove_smaller_from_back nums i ?s'"
      using nonempty bk rb ri True
      by (subst remove_smaller_from_back.simps) simp
    with s2 p True cs c' show ?thesis
      by (simp add: keep_back_def popped_back_def)
  qed
qed

lemma push_current_effect:
  assumes "dq_wf (deque s)" "dq_rear (deque s) + 1 < int (length (dq_data (deque s)))"
  shows "\<exists>s3. push_current i s = Inr s3 \<and> dq_wf (deque s3) \<and>
           contents (deque s3) = contents (deque s) @ [i] \<and>
           length (dq_data (deque s3)) = length (dq_data (deque s)) \<and>
           dq_rear (deque s3) = dq_rear (deque s) + 1 \<and>
           printed s3 = printed s \<and> trace s3 = trace s @ [PushBack i]"
proof -
  from pushBack_contents[OF assms, of i] obtain dq' where
    "pushBack (deque s) i = Inr dq'" "dq_wf dq'" "contents dq' = contents (deque s) @ [i]"
    "length (dq_data dq') = length (dq_data (deque s))" "dq_rear dq' = dq_rear (deque s) + 1"
    by blast
  then show ?thesis by (simp add: push_current_def)
qed

lemma output_if_window_seen_effect:
  assumes "dq_wf (deque s)" "contents (deque s) \<noteq> []"
    and "0 \<le> hd (contents (deque s))" "hd (contents (deque s)) < int (length nums)"
    and "INT_MIN \<le> k - 1" "k - 1 \<le> INT_MAX"
  shows "output_if_window_seen nums k i s =
           Inr (if k - 1 \<le> i then s\<lparr>printed := printed s @ [val nums (hd (contents (deque s)))]\<rparr>
                else s)"
proof -
  from assms(1,2) have "\<not> isEmpty (deque s)" by (simp add: contents_empty)
  from front_contents[OF assms(1) this] assms(3-) show ?thesis
    by (simp add: output_if_window_seen_def int_sub_ok read_nums_ok)
qed

lemma set_expire: "set (expire k i cs) \<subseteq> set cs"
  by (auto simp: expire_def dest: list.set_sel(2))

lemma set_keep_back: "set (keep_back nums i cs) \<subseteq> set cs"
  by (auto simp: keep_back_def dest: set_dropWhileD)

lemma loop_body_effect:
  assumes wf: "dq_wf (deque s)"
    and len: "length (dq_data (deque s)) = length nums"
    and rear: "dq_rear (deque s) < i"
    and rng: "\<forall>d\<in>set (contents (deque s)). 0 \<le> d \<and> d < i"
    and i: "0 \<le> i" "i < int (length nums)"
    and ov: "INT_MIN \<le> i - k" "i - k \<le> INT_MAX" "INT_MIN \<le> k - 1" "k - 1 \<le> INT_MAX"
  shows "\<exists>s'. loop_body nums k i s = Inr s' \<and> dq_wf (deque s') \<and>
           length (dq_data (deque s')) = length nums \<and> dq_rear (deque s') < i + 1 \<and>
           contents (deque s') = keep_back nums i (expire k i (contents (deque s))) @ [i] \<and>
           printed s' = printed s @
             (if k - 1 \<le> i
              then [val nums (hd (keep_back nums i (expire k i (contents (deque s))) @ [i]))]
              else []) \<and>
           trace s' = trace s @ map PopFront (expired k i (contents (deque s))) @
             map PopBack (popped_back nums i (expire k i (contents (deque s)))) @ [PushBack i]"
proof -
  let ?cs = "contents (deque s)"
  from remove_out_of_window_effect[OF wf ov(1,2)] obtain s1 where s1:
    "remove_out_of_window k i s = Inr s1" "dq_wf (deque s1)"
    "contents (deque s1) = expire k i ?cs"
    "dq_data (deque s1) = dq_data (deque s)" "dq_rear (deque s1) = dq_rear (deque s)"
    "printed s1 = printed s" "trace s1 = trace s @ map PopFront (expired k i ?cs)"
    by blast
  have rng1: "\<forall>d\<in>set (contents (deque s1)). 0 \<le> d \<and> d < int (length nums)"
    using rng i(2) s1(3) set_expire[of k i ?cs] by fastforce
  from remove_smaller_from_back_effect[OF s1(2) rng1 i] obtain s2 where s2:
    "remove_smaller_from_back nums i s1 = Inr s2" "dq_wf (deque s2)"
    "contents (deque s2) = keep_back nums i (contents (deque s1))"
    "dq_data (deque s2) = dq_data (deque s1)" "dq_rear (deque s2) \<le> dq_rear (deque s1)"
    "printed s2 = printed s1"
    "trace s2 = trace s1 @ map PopBack (popped_back nums i (contents (deque s1)))"
    by blast
  have "dq_rear (deque s2) + 1 < int (length (dq_data (deque s2)))"
    using s2(4,5) s1(4,5) rear i(2) len by simp
  from push_current_effect[OF s2(2) this, of i] obtain s3 where s3:
    "push_current i s2 = Inr s3" "dq_wf (deque s3)"
    "contents (deque s3) = contents (deque s2) @ [i]"
    "length (dq_data (deque s3)) = length (dq_data (deque s2))"
    "dq_rear (deque s3) = dq_rear (deque s2) + 1"
    "printed s3 = printed s2" "trace s3 = trace s2 @ [PushBack i]"
    by blast
  have c3: "contents (deque s3) = keep_back nums i (expire k i ?cs) @ [i]"
    using s3(3) s2(3) s1(3) by simp
  have rng3: "\<forall>d\<in>set (contents (deque s3)). 0 \<le> d \<and> d < int (length nums)"
    using rng1 s2(3) set_keep_back[of nums i "contents (deque s1)"] s3(3) i by fastforce
  have ne3: "contents (deque s3) \<noteq> []" using s3(3) by simp
  then have hd3: "0 \<le> hd (contents (deque s3))" "hd (contents (deque s3)) < int (length nums)"
    using rng3 by (simp_all add: hd_in_set del: hd_append2)
  note out = output_if_window_seen_effect[OF s3(2) ne3 hd3 ov(3,4), of i]
  have "loop_body nums k i s = output_if_window_seen nums k i s3"
    using s1(1) s2(1) s3(1) by (simp add: loop_body_def)
  with out have body: "loop_body nums k i s =
      Inr (if k - 1 \<le> i then s3\<lparr>printed := printed s3 @ [val nums (hd (contents (deque s3)))]\<rparr>
           else s3)"
    by simp
  show ?thesis
    unfolding body using s3 s2 s1 c3 rear len
    by (cases "k - 1 \<le> i") simp_all
qed

lemma loop_body_steps:
  assumes wf: "dq_wf (deque s)"
    and len: "length (dq_data (deque s)) = length nums"
    and rear: "dq_rear (deque s) < i"
    and rng: "\<forall>d\<in>set (contents (deque s)). 0 \<le> d \<and> d < i"
    and i: "0 \<le> i" "i < int (length nums)"
    and ov: "INT_MIN \<le> i - k" "i - k \<le> INT_MAX" "INT_MIN \<le> k - 1" "k - 1 \<le> INT_MAX"
  shows "\<exists>s1 s2 s3 s'.
           remove_out_of_window k i s = Inr s1 \<and> remove_smaller_from_back nums i s1 = Inr s2 \<and>
           push_current i s2 = Inr s3 \<and> output_if_window_seen nums k i s3 = Inr s' \<and>
           loop_body nums k i s = Inr s' \<and> deque s' = deque s3 \<and>
           dq_rear (deque s3) = dq_rear (deque s2) + 1 \<and> dq_rear (deque s2) < i \<and>
           dq_wf (deque s1) \<and> dq_wf (deque s2) \<and> dq_wf (deque s3) \<and>
           length (dq_data (deque s1)) = length nums \<and>
           length (dq_data (deque s2)) = length nums \<and>
           length (dq_data (deque s3)) = length nums \<and> \<not> isEmpty (deque s3)"
proof -
  let ?cs = "contents (deque s)"
  from remove_out_of_window_effect[OF wf ov(1,2)] obtain s1 where s1:
    "remove_out_of_window k i s = Inr s1" "dq_wf (deque s1)"
    "contents (deque s1) = expire k i ?cs"
    "dq_data (deque s1) = dq_data (deque s)" "dq_rear (deque s1) = dq_rear (deque s)"
    by blast
  have rng1: "\<forall>d\<in>set (contents (deque s1)). 0 \<le> d \<and> d < int (length nums)"
    using rng i(2) s1(3) set_expire[of k i ?cs] by fastforce
  from remove_smaller_from_back_effect[OF s1(2) rng1 i] obtain s2 where s2:
    "remove_smaller_from_back nums i s1 = Inr s2" "dq_wf (deque s2)"
    "contents (deque s2) = keep_back nums i (contents (deque s1))"
    "dq_data (deque s2) = dq_data (deque s1)" "dq_rear (deque s2) \<le> dq_rear (deque s1)"
    by blast
  have r2: "dq_rear (deque s2) < i" using s2(5) s1(5) rear by simp
  then have "dq_rear (deque s2) + 1 < int (length (dq_data (deque s2)))"
    using s2(4) s1(4) i(2) len by simp
  from push_current_effect[OF s2(2) this, of i] obtain s3 where s3:
    "push_current i s2 = Inr s3" "dq_wf (deque s3)"
    "contents (deque s3) = contents (deque s2) @ [i]"
    "length (dq_data (deque s3)) = length (dq_data (deque s2))"
    "dq_rear (deque s3) = dq_rear (deque s2) + 1"
    by blast
  have rng3: "\<forall>d\<in>set (contents (deque s3)). 0 \<le> d \<and> d < int (length nums)"
    using rng1 s2(3) set_keep_back[of nums i "contents (deque s1)"] s3(3) i by fastforce
  have ne3: "contents (deque s3) \<noteq> []" using s3(3) by simp
  then have hd3: "0 \<le> hd (contents (deque s3))" "hd (contents (deque s3)) < int (length nums)"
    using rng3 by (simp_all add: hd_in_set del: hd_append2)
  have nonempty3: "\<not> isEmpty (deque s3)" using ne3 s3(2) by (simp add: contents_empty)
  note out = output_if_window_seen_effect[OF s3(2) ne3 hd3 ov(3,4), of i]
  let ?s' = "if k - 1 \<le> i
    then s3\<lparr>printed := printed s3 @ [val nums (hd (contents (deque s3)))]\<rparr> else s3"
  have "loop_body nums k i s = Inr ?s'"
    using s1(1) s2(1) s3(1) out by (simp add: loop_body_def)
  moreover have "deque ?s' = deque s3" by simp
  moreover have "length (dq_data (deque s1)) = length nums"
    "length (dq_data (deque s2)) = length nums" "length (dq_data (deque s3)) = length nums"
    using s1(4) s2(4) s3(4) len by simp_all
  ultimately show ?thesis using s1(1,2) s2(1,2) s3(1,2,5) out r2 nonempty3 by blast
qed

section \<open>The cursors and the reads\<close>

text \<open>How each step moves the two cursors.\<close>

lemma remove_out_of_window_cursors:
  assumes "remove_out_of_window k i s = Inr s1"
  shows "dq_front (deque s) \<le> dq_front (deque s1)"
    "dq_front (deque s1) \<le> dq_front (deque s) + 1" "dq_rear (deque s1) = dq_rear (deque s)"
  using assms
  by (auto simp: remove_out_of_window_def popFront_def split: if_splits sum.splits)

lemma remove_smaller_from_back_cursors:
  assumes "remove_smaller_from_back nums i s = Inr s2"
  shows "dq_front (deque s2) = dq_front (deque s) \<and> dq_rear (deque s2) \<le> dq_rear (deque s)"
  using assms
proof (induction nums i s rule: remove_smaller_from_back.induct)
  case (1 nums i s)
  show ?case
  proof (cases "isEmpty (deque s)")
    case True
    with "1.prems" show ?thesis
      by (subst (asm) remove_smaller_from_back.simps)
        (simp del: remove_smaller_from_back.simps)
  next
    case False
    from "1.prems" False obtain b vb vi where
      b: "back_dq (deque s) = Inr b" "read_nums nums b = Inr vb" "read_nums nums i = Inr vi"
      by (subst (asm) remove_smaller_from_back.simps)
        (auto split: sum.splits simp del: remove_smaller_from_back.simps)
    show ?thesis
    proof (cases "vb < vi")
      case False
      with "1.prems" \<open>\<not> isEmpty (deque s)\<close> b show ?thesis
        by (subst (asm) remove_smaller_from_back.simps)
          (auto simp del: remove_smaller_from_back.simps)
    next
      case True
      let ?s' = "s\<lparr>deque := popBack (deque s), trace := trace s @ [PopBack b]\<rparr>"
      have "remove_smaller_from_back nums i ?s' = Inr s2"
        using "1.prems" False b True
        by (subst (asm) remove_smaller_from_back.simps)
          (simp del: remove_smaller_from_back.simps)
      from "1.IH"[OF False b(1) b(2) b(3) True this] show ?thesis
        by (simp add: popBack_def)
    qed
  qed
qed

lemma push_current_cursors:
  assumes "push_current i s = Inr s3"
  shows "dq_front (deque s3) = dq_front (deque s)" "dq_rear (deque s3) = dq_rear (deque s) + 1"
  using assms
  by (auto simp: push_current_def pushBack_def Let_def split: if_splits sum.splits)

text \<open>The logged steps are the steps.\<close>

lemma remove_out_of_window_reads_state:
  "without_reads (remove_out_of_window_reads k i s r) = remove_out_of_window k i s"
  by (simp add: without_reads_def remove_out_of_window_reads_def remove_out_of_window_def
        split: sum.splits)

lemma remove_smaller_from_back_reads_state:
  "without_reads (remove_smaller_from_back_reads nums i s r) = remove_smaller_from_back nums i s"
proof (induction nums i s r rule: remove_smaller_from_back_reads.induct)
  case (1 nums i s r)
  show ?case
    apply (subst remove_smaller_from_back_reads.simps)
    apply (subst remove_smaller_from_back.simps)
    using 1
    by (auto split: sum.splits simp: without_reads_def
          simp del: remove_smaller_from_back_reads.simps remove_smaller_from_back.simps)
qed

lemma output_if_window_seen_reads_state:
  "without_reads (output_if_window_seen_reads nums k i s r) = output_if_window_seen nums k i s"
  by (simp add: without_reads_def output_if_window_seen_reads_def output_if_window_seen_def
        split: sum.splits)

lemma reads_of_state:
  assumes "without_reads x = Inr s"
  shows "\<exists>r. x = Inr (s, r)"
  using assms by (auto simp: without_reads_def split: sum.splits)

text \<open>
  On a well-formed deque every logged read is of a cell of the buffer and is made with
  \<open>size > 0\<close>.
\<close>

lemma dq_wf_reads:
  assumes "dq_wf dq" "\<not> isEmpty dq"
  shows "0 \<le> dq_front dq" "dq_front dq < int (length (dq_data dq))"
    "0 \<le> dq_rear dq" "dq_rear dq < int (length (dq_data dq))" "0 < dq_size dq"
  using assms unfolding dq_wf_def isEmpty_def by linarith+

lemma remove_out_of_window_reads_log:
  assumes "dq_wf (deque s)" "remove_out_of_window_reads k i s r = Inr (s1, r1)"
  shows "\<exists>new. r1 = r @ new \<and>
           (\<forall>(p, z)\<in>set new. 0 \<le> p \<and> p < int (length (dq_data (deque s))) \<and> 0 < z)"
  using assms(2) dq_wf_reads[OF assms(1)]
  by (auto simp: remove_out_of_window_reads_def split: if_splits sum.splits)

lemma remove_smaller_from_back_reads_log:
  assumes "dq_wf (deque s)" "remove_smaller_from_back_reads nums i s r = Inr (s2, r2)"
  shows "\<exists>new. r2 = r @ new \<and>
           (\<forall>(p, z)\<in>set new. 0 \<le> p \<and> p < int (length (dq_data (deque s))) \<and> 0 < z)"
  using assms
proof (induction nums i s r rule: remove_smaller_from_back_reads.induct)
  case (1 nums i s r)
  show ?case
  proof (cases "isEmpty (deque s)")
    case True
    with "1.prems"(2) show ?thesis
      by (subst (asm) remove_smaller_from_back_reads.simps)
        (simp del: remove_smaller_from_back_reads.simps)
  next
    case False
    note rd = dq_wf_reads[OF "1.prems"(1) False]
    from "1.prems"(2) False obtain b vb vi where
      b: "back_dq (deque s) = Inr b" "read_nums nums b = Inr vb" "read_nums nums i = Inr vi"
      by (subst (asm) remove_smaller_from_back_reads.simps)
        (auto split: sum.splits simp del: remove_smaller_from_back_reads.simps)
    let ?e = "(dq_rear (deque s), dq_size (deque s))"
    show ?thesis
    proof (cases "vb < vi")
      case False
      with "1.prems"(2) \<open>\<not> isEmpty (deque s)\<close> b rd show ?thesis
        by (subst (asm) remove_smaller_from_back_reads.simps)
          (auto simp del: remove_smaller_from_back_reads.simps)
    next
      case True
      let ?s' = "s\<lparr>deque := popBack (deque s), trace := trace s @ [PopBack b]\<rparr>"
      have wf': "dq_wf (deque ?s')"
        using popBack_contents(1)[OF "1.prems"(1) False] by simp
      have len': "dq_data (deque ?s') = dq_data (deque s)"
        using popBack_contents(3)[OF "1.prems"(1) False] by simp
      have rec: "remove_smaller_from_back_reads nums i ?s' (r @ [?e]) = Inr (s2, r2)"
        using "1.prems"(2) False b True
        by (subst (asm) remove_smaller_from_back_reads.simps)
        (simp del: remove_smaller_from_back_reads.simps)
      from "1.IH"[OF False b(1) b(2) b(3) True wf' rec] obtain new where
        "r2 = (r @ [?e]) @ new"
        "\<forall>(p, z)\<in>set new. 0 \<le> p \<and> p < int (length (dq_data (deque ?s'))) \<and> 0 < z"
        by blast
      with rd len' have "r2 = r @ (?e # new) \<and>
          (\<forall>(p, z)\<in>set (?e # new). 0 \<le> p \<and> p < int (length (dq_data (deque s))) \<and> 0 < z)"
        by simp
      then show ?thesis by blast
    qed
  qed
qed

lemma output_if_window_seen_reads_log:
  assumes "dq_wf (deque s)" "\<not> isEmpty (deque s)"
    "output_if_window_seen_reads nums k i s r = Inr (s', r')"
  shows "\<exists>new. r' = r @ new \<and>
           (\<forall>(p, z)\<in>set new. 0 \<le> p \<and> p < int (length (dq_data (deque s))) \<and> 0 < z)"
  using assms(3) dq_wf_reads[OF assms(1,2)]
  by (auto simp: output_if_window_seen_reads_def split: if_splits sum.splits)

section \<open>The loop\<close>

text \<open>An invariant of the body is an invariant of the loop, and the loop does not fault.\<close>

lemma for_loop_invariant:
  assumes step: "\<And>i s. m \<le> i \<Longrightarrow> i < b \<Longrightarrow> I i s \<Longrightarrow> \<exists>s'. loop_body nums k i s = Inr s' \<and> I (i + 1) s'"
    and "I i s" "m \<le> i" "i \<le> b"
  shows "\<exists>s'. for_loop nums b k i s = Inr s' \<and> I b s'"
  using assms(2-)
proof (induction "nat (b - i)" arbitrary: i s)
  case 0
  then have "i = b" by simp
  with "0.prems" show ?case by simp
next
  case (Suc l)
  then have lt: "i < b" by linarith
  from step[OF Suc.prems(2) lt Suc.prems(1)] obtain s1 where
    s1: "loop_body nums k i s = Inr s1" "I (i + 1) s1" by blast
  have "l = nat (b - (i + 1))" using Suc.hyps(2) by linarith
  from Suc.hyps(1)[OF this s1(2)] Suc.prems(2) lt obtain s' where
    "for_loop nums b k (i + 1) s1 = Inr s'" "I b s'" by auto
  with s1 lt show ?case by simp
qed

text \<open>The loop up to \<open>b\<close> is the loop up to \<open>m\<close> followed by the loop from \<open>m\<close> to \<open>b\<close>.\<close>

lemma for_loop_split:
  assumes "i \<le> m" "m \<le> b"
  shows "for_loop nums b k i s =
           (case for_loop nums m k i s of Inl e \<Rightarrow> Inl e | Inr s' \<Rightarrow> for_loop nums b k m s')"
  using assms(1)
proof (induction "nat (m - i)" arbitrary: i s)
  case 0
  then have "i = m" by simp
  then show ?case by simp
next
  case (Suc l)
  then have lt: "i < m" by linarith
  then have ltb: "i < b" using assms(2) by simp
  have l: "l = nat (m - (i + 1))" using Suc.hyps(2) by linarith
  show ?case
  proof (cases "loop_body nums k i s")
    case (Inl e)
    with lt ltb show ?thesis by simp
  next
    case (Inr s1)
    from Suc.hyps(1)[OF l, of s1] lt have
      "for_loop nums b k (i + 1) s1 =
        (case for_loop nums m k (i + 1) s1 of Inl e \<Rightarrow> Inl e | Inr s' \<Rightarrow> for_loop nums b k m s')"
      by simp
    with Inr lt ltb show ?thesis by simp
  qed
qed

text \<open>
  Hence \<open>scan_upto nums n k m\<close> is the state in which the scan of
  \<open>slidingWindowMaximum(nums, n, k)\<close> reaches position \<open>m\<close>, and for \<open>m = n\<close> the state in
  which it leaves the loop.
\<close>

lemma scan_upto_continues:
  assumes "0 \<le> m" "m \<le> n" "scan_upto nums n k m = Inr s"
  shows "for_loop nums n k 0 (initial_scan n) = for_loop nums n k m s"
  using for_loop_split[OF assms(1,2), of nums k "initial_scan n"] assms(3)
  by (simp add: scan_upto_def)

lemma slidingWindowMaximum_scan:
  "slidingWindowMaximum nums n k =
     (case scan_upto nums n k n of Inl e \<Rightarrow> Inl e | Inr s \<Rightarrow> Inr (printed s))"
  by (simp add: slidingWindowMaximum_def scan_upto_def)

section \<open>The stored indices\<close>

lemma cand_iff:
  "j \<in> cand nums k m \<longleftrightarrow>
     0 \<le> j \<and> m - k \<le> j \<and> j < m \<and> (\<forall>j'. j < j' \<and> j' < m \<longrightarrow> val nums j' \<le> val nums j)"
  by (auto simp: cand_def)

lemma cand_dominates:
  assumes "0 \<le> j" "m - k \<le> j" "j < m"
  shows "\<exists>d\<in>cand nums k m. j \<le> d \<and> val nums j \<le> val nums d"
  using assms
proof (induction "nat (m - j)" arbitrary: j rule: less_induct)
  case less
  show ?case
  proof (cases "\<forall>j'. j < j' \<and> j' < m \<longrightarrow> val nums j' \<le> val nums j")
    case True
    with less.prems have "j \<in> cand nums k m" by (simp add: cand_iff)
    then show ?thesis by auto
  next
    case False
    then obtain j' where j': "j < j'" "j' < m" "val nums j < val nums j'" by auto
    then have "nat (m - j') < nat (m - j)" by linarith
    from less.hyps[OF this] j' less.prems obtain d where
      "d \<in> cand nums k m" "j' \<le> d" "val nums j' \<le> val nums d" by auto
    with j' show ?thesis by (intro bexI[of _ d]) auto
  qed
qed

lemma expire_cand:
  assumes "sorted_wrt (<) cs" "set cs = cand nums k m"
  shows "sorted_wrt (<) (expire k m cs)" "set (expire k m cs) = {j \<in> cand nums k m. m - k < j}"
proof -
  show "sorted_wrt (<) (expire k m cs)"
    using assms(1) by (cases cs) (auto simp: expire_def)
  show "set (expire k m cs) = {j \<in> cand nums k m. m - k < j}"
  proof (cases cs)
    case Nil
    with assms(2) show ?thesis by (auto simp: expire_def)
  next
    case (Cons x xs)
    have lo: "\<forall>y\<in>set cs. m - k \<le> y" using assms(2) by (auto simp: cand_iff)
    have gt: "\<forall>y\<in>set xs. x < y" using assms(1) Cons by simp
    have goal: "set (expire k m cs) = {j \<in> set cs. m - k < j}"
    proof (cases "x \<le> m - k")
      case True
      with lo Cons have "x = m - k" by auto
      with gt Cons True show ?thesis
        by (auto simp: expire_def)
    next
      case False
      with gt Cons show ?thesis
        by (fastforce simp: expire_def)
    qed
    then show ?thesis unfolding assms(2) .
  qed
qed

lemma keep_back_filter:
  assumes "sorted_wrt (\<lambda>a b. val nums b \<le> val nums a) cs"
  shows "keep_back nums i cs = filter (\<lambda>d. val nums i \<le> val nums d) cs"
  using assms
proof (induction cs rule: rev_induct)
  case Nil
  show ?case by (simp add: keep_back_def)
next
  case (snoc b xs)
  then have ih: "keep_back nums i xs = filter (\<lambda>d. val nums i \<le> val nums d) xs"
    and ge: "\<forall>x\<in>set xs. val nums b \<le> val nums x"
    by (auto simp: sorted_wrt_append)
  show ?case
  proof (cases "val nums b < val nums i")
    case True
    with ih show ?thesis by (simp add: keep_back_def)
  next
    case False
    with ge have "filter (\<lambda>d. val nums i \<le> val nums d) xs = xs"
      by (intro filter_True) auto
    with False show ?thesis by (simp add: keep_back_def)
  qed
qed

lemma cand_values_sorted:
  assumes "sorted_wrt (<) cs" "set cs \<subseteq> cand nums k m"
  shows "sorted_wrt (\<lambda>a b. val nums b \<le> val nums a) cs"
proof -
  have "val nums b \<le> val nums a" if "a \<in> set cs" "b \<in> set cs" "a < b" for a b
  proof -
    from that assms(2) have "a \<in> cand nums k m" "b \<in> cand nums k m" by auto
    with that(3) show ?thesis by (simp add: cand_iff)
  qed
  with assms(1) show ?thesis
    by (simp add: sorted_wrt_iff_nth_less)
qed

lemma cand_step:
  assumes "1 \<le> k" "0 \<le> m"
  shows "cand nums k (m + 1) =
           insert m {j \<in> cand nums k m. m - k < j \<and> val nums m \<le> val nums j}"
proof (intro set_eqI iffI)
  fix j assume "j \<in> cand nums k (m + 1)"
  then have j: "0 \<le> j" "m + 1 - k \<le> j" "j < m + 1"
    "\<forall>j'. j < j' \<and> j' < m + 1 \<longrightarrow> val nums j' \<le> val nums j"
    by (auto simp: cand_iff)
  show "j \<in> insert m {j \<in> cand nums k m. m - k < j \<and> val nums m \<le> val nums j}"
  proof (cases "j = m")
    case False
    with j have "j < m" by simp
    with j show ?thesis by (simp add: cand_iff)
  qed simp
next
  fix j assume "j \<in> insert m {j \<in> cand nums k m. m - k < j \<and> val nums m \<le> val nums j}"
  then consider "j = m" | "j \<in> cand nums k m" "m - k < j" "val nums m \<le> val nums j" by auto
  then show "j \<in> cand nums k (m + 1)"
  proof cases
    case 1
    with assms show ?thesis by (simp add: cand_iff)
  next
    case 2
    then have "\<forall>j'. j < j' \<and> j' < m + 1 \<longrightarrow> val nums j' \<le> val nums j"
      by (metis cand_iff zless_add1_eq)
    with 2 show ?thesis by (simp add: cand_iff)
  qed
qed

lemma deque_step_cand:
  assumes "sorted_wrt (<) cs" "set cs = cand nums k m" "1 \<le> k" "0 \<le> m"
  shows "sorted_wrt (<) (keep_back nums m (expire k m cs) @ [m])"
    and "set (keep_back nums m (expire k m cs) @ [m]) = cand nums k (m + 1)"
proof -
  note e = expire_cand[OF assms(1,2)]
  have sub: "set (expire k m cs) \<subseteq> cand nums k m" using e(2) by auto
  note kb = keep_back_filter[OF cand_values_sorted[OF e(1) sub], of m]
  show "set (keep_back nums m (expire k m cs) @ [m]) = cand nums k (m + 1)"
    unfolding kb cand_step[OF assms(3,4)] using e(2) by auto
  have "\<forall>x\<in>set (expire k m cs). x < m" using sub by (auto simp: cand_iff)
  then show "sorted_wrt (<) (keep_back nums m (expire k m cs) @ [m])"
    unfolding kb using e(1) by (auto simp: sorted_wrt_append sorted_wrt_filter)
qed

lemma set_take_drop:
  "set (take k (drop j xs)) = {xs ! p | p. j \<le> p \<and> p < j + k \<and> p < length xs}"
proof (intro set_eqI iffI)
  fix y assume "y \<in> set (take k (drop j xs))"
  then obtain q where "q < length (take k (drop j xs))" "y = take k (drop j xs) ! q"
    by (auto simp: in_set_conv_nth)
  then have "j \<le> j + q \<and> j + q < j + k \<and> j + q < length xs \<and> y = xs ! (j + q)"
    by auto
  then show "y \<in> {xs ! p | p. j \<le> p \<and> p < j + k \<and> p < length xs}" by blast
next
  fix y assume "y \<in> {xs ! p | p. j \<le> p \<and> p < j + k \<and> p < length xs}"
  then obtain p where p: "j \<le> p" "p < j + k" "p < length xs" "y = xs ! p" by blast
  then have "p - j < length (take k (drop j xs))" "take k (drop j xs) ! (p - j) = y"
    by auto
  then show "y \<in> set (take k (drop j xs))"
    using nth_mem by blast
qed

lemma window_max_hd:
  assumes srt: "sorted_wrt (<) cs" and set: "set cs = cand nums k (m + 1)"
    and k: "1 \<le> k" "k - 1 \<le> m" and m: "m < int (length nums)"
  shows "window_max nums (nat (m + 1 - k)) (nat k) = val nums (hd cs)"
proof -
  have m0: "0 \<le> m" using k by simp
  have "m \<in> cand nums k (m + 1)" using k m0 by (simp add: cand_iff)
  with set have ne: "cs \<noteq> []" by auto
  then have hin: "hd cs \<in> cand nums k (m + 1)" using set hd_in_set by blast
  have hmin: "hd cs \<le> y" if "y \<in> set cs" for y
    using srt ne that by (cases cs) auto
  let ?W = "set (take (nat k) (drop (nat (m + 1 - k)) nums))"
  have "Max ?W = val nums (hd cs)"
  proof (rule Max_eqI)
    show "finite ?W" by simp
  next
    fix y assume "y \<in> ?W"
    then obtain p where p: "nat (m + 1 - k) \<le> p" "p < nat (m + 1 - k) + nat k" "y = nums ! p"
      by (auto simp: set_take_drop)
    let ?j = "int p"
    have j: "0 \<le> ?j" "m + 1 - k \<le> ?j" "?j < m + 1" using p k by linarith+
    from cand_dominates[OF j(1) j(2) j(3), of nums] obtain d where
      d: "d \<in> cand nums k (m + 1)" "?j \<le> d" "val nums ?j \<le> val nums d" by blast
    from d(1) set have "hd cs \<le> d" using hmin by simp
    then have "val nums d \<le> val nums (hd cs)"
      using hin d(1) by (cases "hd cs = d") (auto simp: cand_iff)
    with d(3) p(3) show "y \<le> val nums (hd cs)" by (simp add: val_def)
  next
    from hin have h: "0 \<le> hd cs" "m + 1 - k \<le> hd cs" "hd cs < m + 1" by (auto simp: cand_iff)
    then have "nat (m + 1 - k) \<le> nat (hd cs)" "nat (hd cs) < nat (m + 1 - k) + nat k"
      "nat (hd cs) < length nums"
      using k m by linarith+
    then show "val nums (hd cs) \<in> ?W"
      unfolding set_take_drop val_def by blast
  qed
  then show ?thesis by (simp add: window_max_def)
qed

section \<open>The trace\<close>

lemma pushed_of_append: "pushed_of (a @ b) = pushed_of a @ pushed_of b"
  by (induction a rule: pushed_of.induct) simp_all

lemma popped_of_append: "popped_of (a @ b) = popped_of a @ popped_of b"
  by (induction a rule: popped_of.induct) simp_all

lemma pushed_of_pops: "pushed_of (map PopFront xs) = []" "pushed_of (map PopBack xs) = []"
  by (induction xs) simp_all

lemma popped_of_pops: "popped_of (map PopFront xs) = xs" "popped_of (map PopBack xs) = xs"
  by (induction xs) simp_all

lemma length_trace: "length t = length (pushed_of t) + length (popped_of t)"
  by (induction t rule: pushed_of.induct) simp_all

lemma pushes_count: "pushes t x = count (mset (pushed_of t)) x"
  by (induction t rule: pushed_of.induct) (simp_all add: pushes_def)

lemma pops_count: "pops t x = count (mset (popped_of t)) x"
  by (induction t rule: popped_of.induct) (simp_all add: pops_def)

lemma mset_expired: "mset (expired k i cs) + mset (expire k i cs) = mset cs"
  by (cases cs) (simp_all add: expired_def expire_def)

lemma mset_popped_back: "mset (popped_back nums i cs) + mset (keep_back nums i cs) = mset cs"
proof -
  let ?P = "\<lambda>d. val nums d < val nums i"
  have "mset (takeWhile ?P (rev cs)) + mset (dropWhile ?P (rev cs)) = mset (rev cs)"
    by (metis mset_append takeWhile_dropWhile_id)
  then show ?thesis by (simp add: popped_back_def keep_back_def)
qed

lemma trace_step:
  fixes nums :: "int list" and k :: int
  assumes "pushed_of t = [0..m - 1]" "mset (popped_of t) + mset cs = mset [0..m - 1]" "0 \<le> m"
  defines "t' \<equiv> t @ map PopFront (expired k m cs) @
             map PopBack (popped_back nums m (expire k m cs)) @ [PushBack m]"
  shows "pushed_of t' = [0..m + 1 - 1]"
    and "mset (popped_of t') + mset (keep_back nums m (expire k m cs) @ [m]) = mset [0..m + 1 - 1]"
proof -
  have up: "[0..m + 1 - 1] = [0..m - 1] @ [m]"
    using assms(3) upto_rec2[of 0 m] by simp
  show "pushed_of t' = [0..m + 1 - 1]"
    unfolding up t'_def using assms(1) by (simp add: pushed_of_append pushed_of_pops)
  have "mset (popped_of t') + mset (keep_back nums m (expire k m cs) @ [m])
      = mset (popped_of t) + (mset (expired k m cs) +
          (mset (popped_back nums m (expire k m cs)) + mset (keep_back nums m (expire k m cs))))
        + {#m#}"
    unfolding t'_def by (simp add: popped_of_append popped_of_pops)
  also have "\<dots> = mset (popped_of t) + mset cs + {#m#}"
    by (simp only: mset_popped_back mset_expired add.assoc)
  also have "\<dots> = mset [0..m + 1 - 1]"
    unfolding up using assms(2) by simp
  finally show "mset (popped_of t') + mset (keep_back nums m (expire k m cs) @ [m])
      = mset [0..m + 1 - 1]" .
qed

section \<open>The invariant holds\<close>

lemma scan_inv_initial: "1 \<le> k \<Longrightarrow> scan_inv nums k 0 (initial_scan (int (length nums)))"
  by (auto simp: scan_inv_def initial_scan_def createDeque_def dq_wf_def contents_def cand_def)

lemma scan_inv_step:
  assumes inv: "scan_inv nums k m s"
    and k: "1 \<le> k" "k \<le> INT_MAX"
    and m: "0 \<le> m" "m < int (length nums)"
    and n: "int (length nums) \<le> INT_MAX"
  shows "\<exists>s'. loop_body nums k m s = Inr s' \<and> scan_inv nums k (m + 1) s'"
proof -
  let ?cs = "contents (deque s)"
  let ?cs' = "keep_back nums m (expire k m ?cs) @ [m]"
  from inv have wf: "dq_wf (deque s)" and len: "length (dq_data (deque s)) = length nums"
    and rear: "dq_rear (deque s) < m" and srt: "sorted_wrt (<) ?cs"
    and set: "set ?cs = cand nums k m"
    and pr: "printed s = map (\<lambda>j. window_max nums j (nat k)) [0..<nat (m - k + 1)]"
    and pu: "pushed_of (trace s) = [0..m - 1]"
    and po: "mset (popped_of (trace s)) + mset ?cs = mset [0..m - 1]"
    by (simp_all add: scan_inv_def)
  have rng: "\<forall>d\<in>set ?cs. 0 \<le> d \<and> d < m" using set by (simp add: cand_iff)
  have ov: "INT_MIN \<le> m - k" "m - k \<le> INT_MAX" "INT_MIN \<le> k - 1" "k - 1 \<le> INT_MAX"
    using k m n by (simp_all add: INT_MIN_def INT_MAX_def)
  from loop_body_effect[OF wf len rear rng m ov] obtain s' where s':
    "loop_body nums k m s = Inr s'" "dq_wf (deque s')"
    "length (dq_data (deque s')) = length nums" "dq_rear (deque s') < m + 1"
    "contents (deque s') = ?cs'"
    "printed s' = printed s @ (if k - 1 \<le> m then [val nums (hd ?cs')] else [])"
    "trace s' = trace s @ map PopFront (expired k m ?cs) @
       map PopBack (popped_back nums m (expire k m ?cs)) @ [PushBack m]"
    by blast
  note c = deque_step_cand[OF srt set k(1) m(1)]
  note t = trace_step[OF pu po m(1), of k nums]
  have "printed s' = map (\<lambda>j. window_max nums j (nat k)) [0..<nat (m + 1 - k + 1)]"
  proof (cases "k - 1 \<le> m")
    case True
    then have e: "nat (m + 1 - k + 1) = Suc (nat (m - k + 1))" by linarith
    have "[0..<nat (m + 1 - k + 1)] = [0..<nat (m - k + 1)] @ [nat (m - k + 1)]"
      unfolding e by simp
    moreover have "window_max nums (nat (m - k + 1)) (nat k) = val nums (hd ?cs')"
      using window_max_hd[OF c k(1) True m(2)] by (simp add: add.commute add_diff_eq)
    ultimately show ?thesis
      using True s'(6) pr by (simp del: upt_Suc)
  next
    case False
    then have "nat (m + 1 - k + 1) = 0" "nat (m - k + 1) = 0" by linarith+
    with False s'(6) pr show ?thesis by simp
  qed
  with s' c t show ?thesis
    by (simp add: scan_inv_def)
qed

lemma scan_upto_inv:
  assumes "n = int (length nums)" "n \<le> INT_MAX" "1 \<le> k" "k \<le> INT_MAX" "0 \<le> m" "m \<le> n"
  shows "\<exists>s. scan_upto nums n k m = Inr s \<and> scan_inv nums k m s"
proof -
  have step: "\<exists>s'. loop_body nums k i s = Inr s' \<and> scan_inv nums k (i + 1) s'"
    if "0 \<le> i" "i < m" "scan_inv nums k i s" for i s
    using scan_inv_step[of nums k i s] that assms by simp
  have init: "scan_inv nums k 0 (initial_scan n)"
    using assms(1,3) scan_inv_initial by simp
  from for_loop_invariant[of 0 m "scan_inv nums k" nums k 0 "initial_scan n", OF step init] assms(5)
  show ?thesis by (simp add: scan_upto_def)
qed

lemma unwindowed_inv_step:
  assumes inv: "unwindowed_inv nums m s"
    and k: "k < 1" "INT_MIN + int (length nums) \<le> k"
    and m: "0 \<le> m" "m < int (length nums)"
  shows "\<exists>s'. loop_body nums k m s = Inr s' \<and> unwindowed_inv nums (m + 1) s'"
proof -
  let ?cs = "contents (deque s)"
  from inv have wf: "dq_wf (deque s)" and len: "length (dq_data (deque s)) = length nums"
    and rear: "dq_rear (deque s) < m" and cs: "?cs = (if m = 0 then [] else [m - 1])"
    and pr: "printed s = take (nat m) nums"
    by (simp_all add: unwindowed_inv_def)
  have rng: "\<forall>d\<in>set ?cs. 0 \<le> d \<and> d < m" using cs m by simp
  have ov: "INT_MIN \<le> m - k" "m - k \<le> INT_MAX" "INT_MIN \<le> k - 1" "k - 1 \<le> INT_MAX"
    using k m by (simp_all add: INT_MIN_def INT_MAX_def)
  from loop_body_effect[OF wf len rear rng m ov] obtain s' where s':
    "loop_body nums k m s = Inr s'" "dq_wf (deque s')"
    "length (dq_data (deque s')) = length nums" "dq_rear (deque s') < m + 1"
    "contents (deque s') = keep_back nums m (expire k m ?cs) @ [m]"
    "printed s' = printed s @ (if k - 1 \<le> m
       then [val nums (hd (keep_back nums m (expire k m ?cs) @ [m]))] else [])"
    by blast
  have ex: "expire k m ?cs = []" using cs k(1) by (simp add: expire_def)
  have "nat (m + 1) = Suc (nat m)" using m by simp
  then have "take (nat (m + 1)) nums = take (nat m) nums @ [val nums m]"
    using m by (simp add: take_Suc_conv_app_nth val_def)
  with s' ex pr k(1) m show ?thesis
    by (simp add: unwindowed_inv_def keep_back_def)
qed

section \<open>The scenarios of the specification\<close>

lemma scenario_eight_values:
  "slidingWindowMaximum [1, 3, - 1, - 3, 5, 3, 6, 7] 8 3 = Inr [3, 3, 5, 5, 6, 7]"
  by code_simp

lemma scenario_two_values_increasing: "slidingWindowMaximum [9, 11] 2 2 = Inr [11]"
  by code_simp

lemma scenario_two_values_decreasing: "slidingWindowMaximum [4, - 2] 2 2 = Inr [4]"
  by code_simp

section \<open>The claims\<close>

text \<open>
  A valid input is an array \<open>nums\<close> of \<open>n\<close> cells, \<open>n\<close> an \<open>int\<close>, and a window size
  \<open>1 \<le> k \<le> n\<close>. A result \<open>Inr\<close> says that the call ran to its end without undefined
  behaviour: every read and write of the deque's buffer and of \<open>nums\<close> was inside its
  block, every cell read had been written, and no subtraction overflowed.
\<close>

subsection \<open>C1: one maximum per window\<close>

text \<open>
  Claim C1. For every valid input the call prints exactly \<open>n - k + 1\<close> values, and the
  \<open>j\<close>-th of them (from 0) is the maximum of \<open>nums[j .. j + k - 1]\<close>.
\<close>

theorem slidingWindowMaximum_window_maxima:
  assumes "n = int (length nums)" "n \<le> INT_MAX" "1 \<le> k" "k \<le> n"
  shows "\<exists>out. slidingWindowMaximum nums n k = Inr out \<and> int (length out) = n - k + 1 \<and>
           (\<forall>j<length out. out ! j = window_max nums j (nat k))"
proof -
  from scan_upto_inv[of n nums k n] assms obtain s where
    s: "scan_upto nums n k n = Inr s" "scan_inv nums k n s" by auto
  then have "printed s = map (\<lambda>j. window_max nums j (nat k)) [0..<nat (n - k + 1)]"
    by (simp add: scan_inv_def)
  with s(1) assms show ?thesis
    by (simp add: slidingWindowMaximum_scan)
qed

theorem slidingWindowMaximum_window_maxima_witness:
  "(8::int) = int (length [1, 3, - 1, - 3, 5, 3, 6, 7 :: int]) \<and> (8::int) \<le> INT_MAX \<and>
   (1::int) \<le> 3 \<and> (3::int) \<le> 8 \<and>
   (\<exists>out. slidingWindowMaximum [1, 3, - 1, - 3, 5, 3, 6, 7] 8 3 = Inr out \<and>
      int (length out) = 8 - 3 + 1 \<and>
      (\<forall>j<length out. out ! j = window_max [1, 3, - 1, - 3, 5, 3, 6, 7] j (nat 3)))"
  using slidingWindowMaximum_window_maxima[of 8 "[1, 3, - 1, - 3, 5, 3, 6, 7]" 3]
  by (simp add: INT_MAX_def)

subsection \<open>C2: a window size out of range\<close>

text \<open>
  Claim C2 says that \<open>k < 1\<close> or \<open>k > n\<close> is answered by an InvalidWindowSize error and no
  output. The function has no check of \<open>k\<close> and no way to report an error (it returns
  \<open>void\<close>): with two values and \<open>k = 0\<close> it runs to its end and prints both.
\<close>

theorem window_size_zero_accepted: "slidingWindowMaximum [1, 2] 2 0 = Inr [1, 2]"
  by code_simp

text \<open>
  Claim C2, amended. No window size is rejected. For \<open>k > n\<close> the scan runs to its end
  without undefined behaviour and prints nothing. For \<open>k < 1\<close> it runs to its end as well
  and prints the \<open>n\<close> input values in order, as long as \<open>i - k\<close> and \<open>k - 1\<close> fit an
  \<open>int\<close> at every position, that is \<open>INT_MIN + n \<le> k\<close>.
\<close>

theorem window_size_not_validated:
  assumes "n = int (length nums)" "n \<le> INT_MAX" "k \<le> INT_MAX"
  shows "(n < k \<longrightarrow> slidingWindowMaximum nums n k = Inr []) \<and>
         (k < 1 \<and> INT_MIN + n \<le> k \<longrightarrow> slidingWindowMaximum nums n k = Inr nums)"
proof (intro conjI impI)
  assume "n < k"
  with scan_upto_inv[of n nums k n] assms obtain s where
    s: "scan_upto nums n k n = Inr s" "scan_inv nums k n s" by auto
  with \<open>n < k\<close> have "printed s = []" by (simp add: scan_inv_def)
  with s(1) show "slidingWindowMaximum nums n k = Inr []"
    by (simp add: slidingWindowMaximum_scan)
next
  assume k: "k < 1 \<and> INT_MIN + n \<le> k"
  have step: "\<exists>s'. loop_body nums k i s = Inr s' \<and> unwindowed_inv nums (i + 1) s'"
    if "0 \<le> i" "i < n" "unwindowed_inv nums i s" for i s
    using unwindowed_inv_step[of nums i s k] that assms k by simp
  have init: "unwindowed_inv nums 0 (initial_scan n)"
    using assms(1)
    by (auto simp: unwindowed_inv_def initial_scan_def createDeque_def dq_wf_def contents_def)
  from for_loop_invariant[of 0 n "unwindowed_inv nums" nums k 0 "initial_scan n", OF step init]
    assms(1)
  obtain s where "for_loop nums n k 0 (initial_scan n) = Inr s" "unwindowed_inv nums n s"
    by auto
  with assms(1) show "slidingWindowMaximum nums n k = Inr nums"
    by (simp add: slidingWindowMaximum_def unwindowed_inv_def)
qed

theorem window_size_not_validated_witness:
  "(2::int) = int (length [1, 2 :: int]) \<and> (2::int) \<le> INT_MAX \<and> (3::int) \<le> INT_MAX \<and>
   (- 5::int) \<le> INT_MAX \<and> (2::int) < 3 \<and> slidingWindowMaximum [1, 2] 2 3 = Inr [] \<and>
   (- 5::int) < 1 \<and> INT_MIN + 2 \<le> - 5 \<and> slidingWindowMaximum [1, 2] 2 (- 5) = Inr [1, 2]"
  using window_size_not_validated[of 2 "[1, 2]" 3] window_size_not_validated[of 2 "[1, 2]" "- 5"]
  by (simp add: INT_MAX_def INT_MIN_def)

subsection \<open>C3: no input values\<close>

text \<open>
  Claim C3 says that \<open>n = 0\<close> is answered by an EmptyInput error. The function reports no
  error: the loop is not entered and the call returns, having printed nothing.
\<close>

theorem empty_input_no_error: "slidingWindowMaximum [] 0 1 = Inr []"
  by code_simp

text \<open>
  Claim C3, amended. For \<open>n = 0\<close> and any \<open>k\<close> the call returns normally and prints
  nothing; no error is reported.
\<close>

theorem zero_length_returns_normally: "slidingWindowMaximum nums 0 k = Inr []"
  by (simp add: slidingWindowMaximum_def initial_scan_def)

theorem zero_length_returns_normally_witness: "slidingWindowMaximum [] 0 (- 4) = Inr []"
  using zero_length_returns_normally[of "[]" "- 4"] by simp

subsection \<open>C4: the stored indices lie in the window\<close>

text \<open>
  Claim C4. For every valid input and every position \<open>i\<close>: once lines 57--58 have run
  for \<open>i\<close>, no stored index is \<open>\<le> i - k\<close>, although the source removes at most one index
  there; and once the body has run for \<open>i\<close>, every stored index lies in
  \<open>i - k + 1 .. i\<close>.
\<close>

theorem stored_indices_in_window:
  assumes "n = int (length nums)" "n \<le> INT_MAX" "1 \<le> k" "k \<le> n" "0 \<le> i" "i < n"
  shows "\<exists>s0 s1 s. scan_upto nums n k i = Inr s0 \<and> remove_out_of_window k i s0 = Inr s1 \<and>
           scan_upto nums n k (i + 1) = Inr s \<and>
           (\<forall>d\<in>set (contents (deque s1)). i - k < d) \<and>
           (\<forall>d\<in>set (contents (deque s)). i - k + 1 \<le> d \<and> d \<le> i)"
proof -
  from scan_upto_inv[of n nums k i] assms obtain s0 where
    s0: "scan_upto nums n k i = Inr s0" "scan_inv nums k i s0" by auto
  from scan_upto_inv[of n nums k "i + 1"] assms obtain s where
    s: "scan_upto nums n k (i + 1) = Inr s" "scan_inv nums k (i + 1) s" by auto
  from s0(2) have wf: "dq_wf (deque s0)" and srt: "sorted_wrt (<) (contents (deque s0))"
    and set: "set (contents (deque s0)) = cand nums k i"
    by (simp_all add: scan_inv_def)
  have ov: "INT_MIN \<le> i - k" "i - k \<le> INT_MAX"
    using assms by (simp_all add: INT_MIN_def INT_MAX_def)
  from remove_out_of_window_effect[OF wf ov] obtain s1 where
    s1: "remove_out_of_window k i s0 = Inr s1"
    "contents (deque s1) = expire k i (contents (deque s0))" by blast
  have "\<forall>d\<in>set (contents (deque s1)). i - k < d"
    using expire_cand(2)[OF srt set] s1(2) by simp
  moreover have "\<forall>d\<in>set (contents (deque s)). i - k + 1 \<le> d \<and> d \<le> i"
    using s(2) by (auto simp: scan_inv_def cand_iff)
  ultimately show ?thesis using s0(1) s1(1) s(1) by blast
qed

theorem stored_indices_in_window_witness:
  "(8::int) = int (length [1, 3, - 1, - 3, 5, 3, 6, 7 :: int]) \<and> (8::int) \<le> INT_MAX \<and>
   (1::int) \<le> 3 \<and> (3::int) \<le> 8 \<and> (0::int) \<le> 4 \<and> (4::int) < 8 \<and>
   (\<exists>s0 s1 s. scan_upto [1, 3, - 1, - 3, 5, 3, 6, 7] 8 3 4 = Inr s0 \<and>
      remove_out_of_window 3 4 s0 = Inr s1 \<and>
      scan_upto [1, 3, - 1, - 3, 5, 3, 6, 7] 8 3 (4 + 1) = Inr s \<and>
      (\<forall>d\<in>set (contents (deque s1)). 4 - 3 < d) \<and>
      (\<forall>d\<in>set (contents (deque s)). 4 - 3 + 1 \<le> d \<and> d \<le> 4))"
  using stored_indices_in_window[of 8 "[1, 3, - 1, - 3, 5, 3, 6, 7]" 3 4]
  by (simp add: INT_MAX_def)

subsection \<open>C5: the stored values do not increase\<close>

text \<open>
  Claim C5. For every valid input, after every position the stored indices are indices
  of \<open>nums\<close>, and the values of \<open>nums\<close> at them, read from the front of the deque to the
  back, are non-increasing.
\<close>

theorem stored_values_non_increasing:
  assumes "n = int (length nums)" "n \<le> INT_MAX" "1 \<le> k" "k \<le> n" "0 \<le> i" "i < n"
  shows "\<exists>s. scan_upto nums n k (i + 1) = Inr s \<and>
           (\<forall>d\<in>set (contents (deque s)). 0 \<le> d \<and> d < n) \<and>
           sorted_wrt (\<lambda>a b. val nums a \<ge> val nums b) (contents (deque s))"
proof -
  from scan_upto_inv[of n nums k "i + 1"] assms obtain s where
    s: "scan_upto nums n k (i + 1) = Inr s" "scan_inv nums k (i + 1) s" by auto
  then have srt: "sorted_wrt (<) (contents (deque s))"
    and set: "set (contents (deque s)) = cand nums k (i + 1)"
    by (simp_all add: scan_inv_def)
  have "sorted_wrt (\<lambda>a b. val nums a \<ge> val nums b) (contents (deque s))"
    using cand_values_sorted[OF srt, of nums k "i + 1"] set by simp
  moreover have "\<forall>d\<in>set (contents (deque s)). 0 \<le> d \<and> d < n"
    using set assms by (auto simp: cand_iff)
  ultimately show ?thesis using s(1) by blast
qed

theorem stored_values_non_increasing_witness:
  "(4::int) = int (length [5, 3, 3, 1 :: int]) \<and> (4::int) \<le> INT_MAX \<and>
   (1::int) \<le> 4 \<and> (4::int) \<le> 4 \<and> (0::int) \<le> 3 \<and> (3::int) < 4 \<and>
   (\<exists>s. scan_upto [5, 3, 3, 1] 4 4 (3 + 1) = Inr s \<and>
      (\<forall>d\<in>set (contents (deque s)). 0 \<le> d \<and> d < 4) \<and>
      sorted_wrt (\<lambda>a b. val [5, 3, 3, 1] a \<ge> val [5, 3, 3, 1] b) (contents (deque s)))"
  using stored_values_non_increasing[of 4 "[5, 3, 3, 1]" 4 3]
  by (simp add: INT_MAX_def)

subsection \<open>C6: equal values are kept\<close>

text \<open>
  Claim C6. For every valid input and every position \<open>i\<close>, with \<open>s1\<close> the state before
  lines 61--62 run for \<open>i\<close>, \<open>s2\<close> the state after them and \<open>s\<close> the state after the body:
  \<^item> lines 61--62 remove exactly the stored indices whose value is strictly smaller than
    \<open>nums[i]\<close>; an index whose value equals \<open>nums[i]\<close> stays;
  \<^item> every index of the window whose value is the window's maximum is stored in \<open>s\<close>;
  \<^item> the stored indices increase from front to back, and with a stored index every later
    index of equal value is stored: of tied indices the rightmost leaves last;
  \<^item> once a value is printed for \<open>i\<close>, it is the value at every index that holds the
    window's maximum, whichever of them is at the front.
\<close>

theorem equal_values_kept:
  assumes "n = int (length nums)" "n \<le> INT_MAX" "1 \<le> k" "k \<le> n" "0 \<le> i" "i < n"
  shows "\<exists>s0 s1 s2 s.
           scan_upto nums n k i = Inr s0 \<and> remove_out_of_window k i s0 = Inr s1 \<and>
           remove_smaller_from_back nums i s1 = Inr s2 \<and> scan_upto nums n k (i + 1) = Inr s \<and>
           contents (deque s2) = filter (\<lambda>d. val nums i \<le> val nums d) (contents (deque s1)) \<and>
           contents (deque s) = contents (deque s2) @ [i] \<and>
           sorted_wrt (<) (contents (deque s)) \<and>
           (\<forall>j. holds_max nums k i j \<longrightarrow> j \<in> set (contents (deque s))) \<and>
           (\<forall>j\<in>set (contents (deque s)). \<forall>j'\<in>{j<..i}.
              val nums j' = val nums j \<longrightarrow> j' \<in> set (contents (deque s))) \<and>
           (k - 1 \<le> i \<longrightarrow> printed s \<noteq> [] \<and>
              (\<forall>j. holds_max nums k i j \<longrightarrow> last (printed s) = val nums j))"
proof -
  from scan_upto_inv[of n nums k i] assms obtain s0 where
    s0: "scan_upto nums n k i = Inr s0" "scan_inv nums k i s0" by auto
  let ?cs = "contents (deque s0)"
  from s0(2) have wf: "dq_wf (deque s0)" and len: "length (dq_data (deque s0)) = length nums"
    and rear: "dq_rear (deque s0) < i" and srt: "sorted_wrt (<) ?cs"
    and set: "set ?cs = cand nums k i"
    by (simp_all add: scan_inv_def)
  have ov: "INT_MIN \<le> i - k" "i - k \<le> INT_MAX" "INT_MIN \<le> k - 1" "k - 1 \<le> INT_MAX"
    using assms by (simp_all add: INT_MIN_def INT_MAX_def)
  have i': "i < int (length nums)" using assms by simp
  from remove_out_of_window_effect[OF wf ov(1,2)] obtain s1 where s1:
    "remove_out_of_window k i s0 = Inr s1" "dq_wf (deque s1)"
    "contents (deque s1) = expire k i ?cs" by blast
  note e = expire_cand[OF srt set]
  have sub: "set (expire k i ?cs) \<subseteq> cand nums k i" using e(2) by auto
  have rng1: "\<forall>d\<in>set (contents (deque s1)). 0 \<le> d \<and> d < int (length nums)"
    using sub s1(3) i' by (auto simp: cand_iff)
  from remove_smaller_from_back_effect[OF s1(2) rng1 assms(5) i'] obtain s2 where s2:
    "remove_smaller_from_back nums i s1 = Inr s2"
    "contents (deque s2) = keep_back nums i (contents (deque s1))" by blast
  have kf: "contents (deque s2) = filter (\<lambda>d. val nums i \<le> val nums d) (contents (deque s1))"
    using s2(2) s1(3) keep_back_filter[OF cand_values_sorted[OF e(1) sub], of i] by simp
  have rng: "\<forall>d\<in>set ?cs. 0 \<le> d \<and> d < i" using set by (simp add: cand_iff)
  from loop_body_effect[OF wf len rear rng assms(5) i' ov] obtain s' where s':
    "loop_body nums k i s0 = Inr s'"
    "contents (deque s') = keep_back nums i (expire k i ?cs) @ [i]" by blast
  from scan_upto_inv[of n nums k "i + 1"] assms obtain s where
    s: "scan_upto nums n k (i + 1) = Inr s" "scan_inv nums k (i + 1) s" by auto
  have "scan_upto nums n k (i + 1) = Inr s'"
    using for_loop_split[of 0 i "i + 1" nums k "initial_scan n"] assms(5) s0(1) s'(1)
    by (simp add: scan_upto_def)
  with s(1) have "s' = s" by simp
  with s'(2) s2(2) s1(3) have app: "contents (deque s) = contents (deque s2) @ [i]" by simp
  from s(2) have srt': "sorted_wrt (<) (contents (deque s))"
    and set': "set (contents (deque s)) = cand nums k (i + 1)"
    and pr: "printed s = map (\<lambda>j. window_max nums j (nat k)) [0..<nat (i + 1 - k + 1)]"
    by (simp_all add: scan_inv_def)
  have tied: "j \<in> set (contents (deque s))" if "holds_max nums k i j" for j
    using that unfolding set' by (auto simp: holds_max_def window_def cand_iff)
  have later: "\<forall>j\<in>set (contents (deque s)). \<forall>j'\<in>{j<..i}.
      val nums j' = val nums j \<longrightarrow> j' \<in> set (contents (deque s))"
    unfolding set' by (auto simp: cand_iff)
  have emit: "printed s \<noteq> [] \<and> (\<forall>j. holds_max nums k i j \<longrightarrow> last (printed s) = val nums j)"
    if ready: "k - 1 \<le> i"
  proof -
    from ready have e: "nat (i + 1 - k + 1) = Suc (nat (i + 1 - k))" by linarith
    have l: "last (printed s) = window_max nums (nat (i + 1 - k)) (nat k)"
      unfolding pr e by simp
    have ne: "printed s \<noteq> []" unfolding pr e by simp
    let ?h = "hd (contents (deque s))"
    have wm: "last (printed s) = val nums ?h"
      using l window_max_hd[OF srt' set' assms(3) ready i'] by simp
    have cne: "contents (deque s) \<noteq> []" using app by simp
    then have hin: "?h \<in> cand nums k (i + 1)" using set' hd_in_set by blast
    have hmin: "?h \<le> y" if "y \<in> set (contents (deque s))" for y
      using srt' cne that by (cases "contents (deque s)") auto
    have "val nums ?h = val nums j" if hm: "holds_max nums k i j" for j
    proof -
      from hin have "?h \<in> window k i" by (auto simp: cand_iff window_def)
      with hm have le: "val nums ?h \<le> val nums j" by (simp add: holds_max_def)
      from hmin[OF tied[OF hm]] have "?h \<le> j" .
      moreover from tied[OF hm] set' have "j < i + 1" by (simp add: cand_iff)
      ultimately have "val nums j \<le> val nums ?h"
        using hin by (cases "?h = j") (auto simp: cand_iff)
      with le show ?thesis by simp
    qed
    with wm ne show ?thesis by simp
  qed
  from s0(1) s1(1) s2(1) s(1) kf app srt' tied later emit show ?thesis by blast
qed

theorem equal_values_kept_witness:
  "(4::int) = int (length [3, 3, 1, 3 :: int]) \<and> (4::int) \<le> INT_MAX \<and>
   (1::int) \<le> 3 \<and> (3::int) \<le> 4 \<and> (0::int) \<le> 3 \<and> (3::int) < 4 \<and>
   (\<exists>s0 s1 s2 s.
      scan_upto [3, 3, 1, 3] 4 3 3 = Inr s0 \<and> remove_out_of_window 3 3 s0 = Inr s1 \<and>
      remove_smaller_from_back [3, 3, 1, 3] 3 s1 = Inr s2 \<and>
      scan_upto [3, 3, 1, 3] 4 3 (3 + 1) = Inr s \<and>
      contents (deque s2) =
        filter (\<lambda>d. val [3, 3, 1, 3] 3 \<le> val [3, 3, 1, 3] d) (contents (deque s1)) \<and>
      contents (deque s) = contents (deque s2) @ [3] \<and>
      sorted_wrt (<) (contents (deque s)) \<and>
      (\<forall>j. holds_max [3, 3, 1, 3] 3 3 j \<longrightarrow> j \<in> set (contents (deque s))) \<and>
      (\<forall>j\<in>set (contents (deque s)). \<forall>j'\<in>{j<..3}.
         val [3, 3, 1, 3] j' = val [3, 3, 1, 3] j \<longrightarrow> j' \<in> set (contents (deque s))) \<and>
      ((3::int) - 1 \<le> 3 \<longrightarrow> printed s \<noteq> [] \<and>
         (\<forall>j. holds_max [3, 3, 1, 3] 3 3 j \<longrightarrow> last (printed s) = val [3, 3, 1, 3] j)))"
  using equal_values_kept[of 4 "[3, 3, 1, 3]" 3 3]
  by (simp add: INT_MAX_def)

subsection \<open>C7: at most two deque operations per index\<close>

text \<open>
  Claim C7. For every valid input, over the whole scan every index \<open>0 .. n - 1\<close> is pushed
  exactly once and popped, from either end, at most once, and the scan makes at most
  \<open>2 * n\<close> calls of \<open>pushBack\<close>, \<open>popFront\<close> and \<open>popBack\<close> together.
\<close>

theorem deque_operations_bounded:
  assumes "n = int (length nums)" "n \<le> INT_MAX" "1 \<le> k" "k \<le> n"
  shows "\<exists>s. scan_upto nums n k n = Inr s \<and>
           (\<forall>x\<in>{0..<n}. pushes (trace s) x = 1 \<and> pops (trace s) x \<le> 1) \<and>
           int (length (trace s)) \<le> 2 * n"
proof -
  from scan_upto_inv[of n nums k n] assms obtain s where
    s: "scan_upto nums n k n = Inr s" "scan_inv nums k n s" by auto
  then have pu: "pushed_of (trace s) = [0..n - 1]"
    and po: "mset (popped_of (trace s)) + mset (contents (deque s)) = mset [0..n - 1]"
    by (simp_all add: scan_inv_def)
  have one: "count (mset [0..n - 1]) x = 1" if "x \<in> {0..<n}" for x
  proof -
    have "distinct [0..n - 1]" by simp
    then have "count (mset [0..n - 1]) x = (if x \<in> set [0..n - 1] then 1 else 0)"
      unfolding distinct_count_atmost_1 by blast
    with that show ?thesis by simp
  qed
  have "pushes (trace s) x = 1 \<and> pops (trace s) x \<le> 1" if "x \<in> {0..<n}" for x
  proof -
    have "count (mset (popped_of (trace s))) x \<le> count (mset [0..n - 1]) x"
      unfolding po[symmetric] by simp
    with one[OF that] pu show ?thesis
      by (simp add: pushes_count pops_count)
  qed
  moreover have "int (length (trace s)) \<le> 2 * n"
  proof -
    have "length (popped_of (trace s)) \<le> length [0..n - 1]"
      using po by (metis le_add1 size_mset size_union)
    moreover have "length [0..n - 1] = nat n" by simp
    moreover have "length (pushed_of (trace s)) = nat n" using pu by simp
    ultimately show ?thesis
      using assms(3,4) by (simp add: length_trace[of "trace s"])
  qed
  ultimately show ?thesis using s(1) by blast
qed

theorem deque_operations_bounded_witness:
  "(8::int) = int (length [1, 3, - 1, - 3, 5, 3, 6, 7 :: int]) \<and> (8::int) \<le> INT_MAX \<and>
   (1::int) \<le> 3 \<and> (3::int) \<le> 8 \<and>
   (\<exists>s. scan_upto [1, 3, - 1, - 3, 5, 3, 6, 7] 8 3 8 = Inr s \<and>
      (\<forall>x\<in>{0..<8}. pushes (trace s) x = 1 \<and> pops (trace s) x \<le> 1) \<and>
      int (length (trace s)) \<le> 2 * 8)"
  using deque_operations_bounded[of 8 "[1, 3, - 1, - 3, 5, 3, 6, 7]" 3]
  by (simp add: INT_MAX_def)

subsection \<open>C8: window size one\<close>

text \<open>
  Claim C8. For every array of \<open>n \<ge> 1\<close> values, the call with \<open>k = 1\<close> prints the values
  of \<open>nums\<close>, in order.
\<close>

theorem window_one_is_identity:
  assumes "n = int (length nums)" "n \<le> INT_MAX" "1 \<le> n"
  shows "slidingWindowMaximum nums n 1 = Inr nums"
proof -
  from scan_upto_inv[of n nums 1 n] assms obtain s where
    s: "scan_upto nums n 1 n = Inr s" "scan_inv nums 1 n s" by (auto simp: INT_MAX_def)
  then have "printed s = map (\<lambda>j. window_max nums j 1) [0..<length nums]"
    using assms by (simp add: scan_inv_def)
  also have "\<dots> = map (\<lambda>j. nums ! j) [0..<length nums]"
    by (rule map_cong) (auto simp: window_max_def take_Suc_conv_app_nth hd_drop_conv_nth take_Suc)
  also have "\<dots> = nums" by (rule map_nth)
  finally show ?thesis using s(1) by (simp add: slidingWindowMaximum_scan)
qed

theorem window_one_is_identity_witness:
  "(3::int) = int (length [4, - 2, 9 :: int]) \<and> (3::int) \<le> INT_MAX \<and> (1::int) \<le> 3 \<and>
   slidingWindowMaximum [4, - 2, 9] 3 1 = Inr [4, - 2, 9]"
  using window_one_is_identity[of 3 "[4, - 2, 9]"] by (simp add: INT_MAX_def)

subsection \<open>C9: the window is the whole array\<close>

text \<open>
  Claim C9. For every array of \<open>n \<ge> 1\<close> values, the call with \<open>k = n\<close> prints exactly one
  value, the maximum of the array.
\<close>

theorem window_n_is_maximum:
  assumes "n = int (length nums)" "n \<le> INT_MAX" "1 \<le> n"
  shows "slidingWindowMaximum nums n n = Inr [Max (set nums)]"
proof -
  from scan_upto_inv[of n nums n n] assms obtain s where
    s: "scan_upto nums n n n = Inr s" "scan_inv nums n n s" by auto
  then have "printed s = [window_max nums 0 (nat n)]"
    by (simp add: scan_inv_def)
  with s(1) assms show ?thesis
    by (simp add: slidingWindowMaximum_scan window_max_def)
qed

theorem window_n_is_maximum_witness:
  "(2::int) = int (length [9, 11 :: int]) \<and> (2::int) \<le> INT_MAX \<and> (1::int) \<le> 2 \<and>
   slidingWindowMaximum [9, 11] 2 2 = Inr [Max (set [9, 11])]"
  using window_n_is_maximum[of 2 "[9, 11]"] by (simp add: INT_MAX_def)

subsection \<open>C10: the buffer is never overrun\<close>

text \<open>
  Claim C10 says, among the reasons why no access leaves the buffer, that the cursors only
  move forward. The rear cursor does not: \<open>popBack\<close> (line 41, called in line 62) decrements
  it. With the eight values of the scenario and \<open>k = 3\<close>, the rear cursor is 2 when the scan
  reaches position 4 and 1 when it has left it.
\<close>

theorem rear_cursor_steps_back:
  "map_sum id (dq_rear \<circ> deque) (scan_upto [1, 3, - 1, - 3, 5, 3, 6, 7] 8 3 4) = Inr 2 \<and>
   map_sum id (dq_rear \<circ> deque) (scan_upto [1, 3, - 1, - 3, 5, 3, 6, 7] 8 3 5) = Inr 1"
  by code_simp

text \<open>
  Claim C10, amended. For every valid input and every position \<open>i\<close>, each of the four
  steps of the body (lines 57--58, 61--62, 64 and 67--68) runs without an access outside
  the buffer of \<open>n\<close> cells or outside \<open>nums\<close>, and no cursor wraps:
  \<^item> the front cursor only moves forward, by at most one in lines 57--58 and not at all
    afterwards;
  \<^item> the rear cursor stays where it is in lines 57--58, can only move back in lines
    61--62 (\<open>popBack\<close>), never below \<open>front - 1\<close>, and moves forward by one at the single
    push of line 64, to at most \<open>i\<close>: it does not reach \<open>n\<close>;
  \<^item> every call of \<open>front\<close> and \<open>back\<close> in lines 57, 61 and 68 reads a cell \<open>0 .. n - 1\<close> and
    is made with \<open>size > 0\<close>;
  \<^item> line 68 reads the front of the deque that the push has left, which is not empty; and
    at the end of the position \<open>0 \<le> front \<le> rear \<le> i < n\<close> with
    \<open>size = rear - front + 1 > 0\<close>.
\<close>

theorem deque_accesses_in_bounds:
  assumes "n = int (length nums)" "n \<le> INT_MAX" "1 \<le> k" "k \<le> n" "0 \<le> i" "i < n"
  shows "\<exists>s0 s1 s2 s3 s r1 r2 r3.
           scan_upto nums n k i = Inr s0 \<and> remove_out_of_window k i s0 = Inr s1 \<and>
           remove_smaller_from_back nums i s1 = Inr s2 \<and> push_current i s2 = Inr s3 \<and>
           output_if_window_seen nums k i s3 = Inr s \<and> scan_upto nums n k (i + 1) = Inr s \<and>
           deque s = deque s3 \<and> dq_rear (deque s3) = dq_rear (deque s2) + 1 \<and>
           int (length (dq_data (deque s))) = n \<and>
           0 \<le> dq_front (deque s) \<and> dq_front (deque s) \<le> dq_rear (deque s) \<and>
           dq_rear (deque s) \<le> i \<and> 0 < dq_size (deque s) \<and>
           dq_size (deque s) = dq_rear (deque s) - dq_front (deque s) + 1 \<and>
           0 \<le> dq_front (deque s0) \<and> dq_front (deque s0) \<le> dq_front (deque s1) \<and>
           dq_front (deque s1) \<le> dq_front (deque s0) + 1 \<and>
           dq_front (deque s2) = dq_front (deque s1) \<and>
           dq_front (deque s3) = dq_front (deque s2) \<and>
           dq_rear (deque s1) = dq_rear (deque s0) \<and>
           dq_rear (deque s2) \<le> dq_rear (deque s1) \<and>
           dq_front (deque s2) - 1 \<le> dq_rear (deque s2) \<and>
           remove_out_of_window_reads k i s0 [] = Inr (s1, r1) \<and>
           remove_smaller_from_back_reads nums i s1 r1 = Inr (s2, r2) \<and>
           output_if_window_seen_reads nums k i s3 r2 = Inr (s, r3) \<and>
           (\<forall>(p, z)\<in>set r3. 0 \<le> p \<and> p < n \<and> 0 < z)"
proof -
  from scan_upto_inv[of n nums k i] assms obtain s0 where
    s0: "scan_upto nums n k i = Inr s0" "scan_inv nums k i s0" by auto
  from s0(2) have wf0: "dq_wf (deque s0)" and len0: "length (dq_data (deque s0)) = length nums"
    and rear0: "dq_rear (deque s0) < i" and set0: "set (contents (deque s0)) = cand nums k i"
    by (simp_all add: scan_inv_def)
  have rng: "\<forall>d\<in>set (contents (deque s0)). 0 \<le> d \<and> d < i" using set0 by (simp add: cand_iff)
  have ov: "INT_MIN \<le> i - k" "i - k \<le> INT_MAX" "INT_MIN \<le> k - 1" "k - 1 \<le> INT_MAX"
    using assms by (simp_all add: INT_MIN_def INT_MAX_def)
  have i': "i < int (length nums)" using assms by simp
  from loop_body_steps[OF wf0 len0 rear0 rng assms(5) i' ov] obtain s1 s2 s3 s' where st:
    "remove_out_of_window k i s0 = Inr s1" "remove_smaller_from_back nums i s1 = Inr s2"
    "push_current i s2 = Inr s3" "output_if_window_seen nums k i s3 = Inr s'"
    "loop_body nums k i s0 = Inr s'" "deque s' = deque s3"
    "dq_rear (deque s3) = dq_rear (deque s2) + 1"
    and wfs: "dq_wf (deque s1)" "dq_wf (deque s2)" "dq_wf (deque s3)"
    and lens: "length (dq_data (deque s1)) = length nums"
      "length (dq_data (deque s2)) = length nums" "length (dq_data (deque s3)) = length nums"
    and ne3: "\<not> isEmpty (deque s3)"
    by blast
  from scan_upto_inv[of n nums k "i + 1"] assms obtain s where
    s: "scan_upto nums n k (i + 1) = Inr s" "scan_inv nums k (i + 1) s" by auto
  have "scan_upto nums n k (i + 1) = Inr s'"
    using for_loop_split[of 0 i "i + 1" nums k "initial_scan n"] assms(5) s0(1) st(5)
    by (simp add: scan_upto_def)
  with s(1) have eq: "s' = s" by simp
  from s(2) have wf: "dq_wf (deque s)" and len: "length (dq_data (deque s)) = length nums"
    and rear: "dq_rear (deque s) < i + 1"
    and set: "set (contents (deque s)) = cand nums k (i + 1)"
    by (simp_all add: scan_inv_def)
  have "i \<in> cand nums k (i + 1)" using assms by (simp add: cand_iff)
  with set have "contents (deque s) \<noteq> []" by auto
  with wf have "dq_size (deque s) \<noteq> 0" by (simp add: contents_empty isEmpty_def)
  with wf len rear assms(1) have bounds:
    "int (length (dq_data (deque s))) = n \<and>
     0 \<le> dq_front (deque s) \<and> dq_front (deque s) \<le> dq_rear (deque s) \<and>
     dq_rear (deque s) \<le> i \<and> 0 < dq_size (deque s) \<and>
     dq_size (deque s) = dq_rear (deque s) - dq_front (deque s) + 1"
    by (auto simp: dq_wf_def)
  have cursors:
    "0 \<le> dq_front (deque s0) \<and> dq_front (deque s0) \<le> dq_front (deque s1) \<and>
     dq_front (deque s1) \<le> dq_front (deque s0) + 1 \<and>
     dq_front (deque s2) = dq_front (deque s1) \<and>
     dq_front (deque s3) = dq_front (deque s2) \<and>
     dq_rear (deque s1) = dq_rear (deque s0) \<and>
     dq_rear (deque s2) \<le> dq_rear (deque s1) \<and>
     dq_front (deque s2) - 1 \<le> dq_rear (deque s2)"
    using remove_out_of_window_cursors[OF st(1)] remove_smaller_from_back_cursors[OF st(2)]
      push_current_cursors[OF st(3)] wf0 wfs(2)
    by (simp add: dq_wf_def)
  from reads_of_state[of "remove_out_of_window_reads k i s0 []" s1]
    remove_out_of_window_reads_state[of k i s0 "[]"] st(1)
  obtain r1 where r1: "remove_out_of_window_reads k i s0 [] = Inr (s1, r1)" by auto
  from reads_of_state[of "remove_smaller_from_back_reads nums i s1 r1" s2]
    remove_smaller_from_back_reads_state[of nums i s1 r1] st(2)
  obtain r2 where r2: "remove_smaller_from_back_reads nums i s1 r1 = Inr (s2, r2)" by auto
  from reads_of_state[of "output_if_window_seen_reads nums k i s3 r2" s']
    output_if_window_seen_reads_state[of nums k i s3 r2] st(4)
  obtain r3 where r3: "output_if_window_seen_reads nums k i s3 r2 = Inr (s', r3)" by auto
  from remove_out_of_window_reads_log[OF wf0 r1] len0 assms(1)
  have l1: "\<forall>(p, z)\<in>set r1. 0 \<le> p \<and> p < n \<and> 0 < z" by auto
  from remove_smaller_from_back_reads_log[OF wfs(1) r2] lens(1) assms(1) l1
  have l2: "\<forall>(p, z)\<in>set r2. 0 \<le> p \<and> p < n \<and> 0 < z" by auto
  from output_if_window_seen_reads_log[OF wfs(3) ne3 r3] lens(3) assms(1) l2
  have l3: "\<forall>(p, z)\<in>set r3. 0 \<le> p \<and> p < n \<and> 0 < z" by auto
  from s0(1) st(1-4,6,7) s(1) eq bounds cursors r1 r2 r3 l3 show ?thesis by blast
qed

theorem deque_accesses_in_bounds_witness:
  "(8::int) = int (length [1, 3, - 1, - 3, 5, 3, 6, 7 :: int]) \<and> (8::int) \<le> INT_MAX \<and>
   (1::int) \<le> 3 \<and> (3::int) \<le> 8 \<and> (0::int) \<le> 4 \<and> (4::int) < 8 \<and>
   (\<exists>s0 s1 s2 s3 s r1 r2 r3.
      scan_upto [1, 3, - 1, - 3, 5, 3, 6, 7] 8 3 4 = Inr s0 \<and>
      remove_out_of_window 3 4 s0 = Inr s1 \<and>
      remove_smaller_from_back [1, 3, - 1, - 3, 5, 3, 6, 7] 4 s1 = Inr s2 \<and>
      push_current 4 s2 = Inr s3 \<and>
      output_if_window_seen [1, 3, - 1, - 3, 5, 3, 6, 7] 3 4 s3 = Inr s \<and>
      scan_upto [1, 3, - 1, - 3, 5, 3, 6, 7] 8 3 (4 + 1) = Inr s \<and>
      deque s = deque s3 \<and> dq_rear (deque s3) = dq_rear (deque s2) + 1 \<and>
      int (length (dq_data (deque s))) = 8 \<and>
      0 \<le> dq_front (deque s) \<and> dq_front (deque s) \<le> dq_rear (deque s) \<and>
      dq_rear (deque s) \<le> 4 \<and> 0 < dq_size (deque s) \<and>
      dq_size (deque s) = dq_rear (deque s) - dq_front (deque s) + 1 \<and>
      0 \<le> dq_front (deque s0) \<and> dq_front (deque s0) \<le> dq_front (deque s1) \<and>
      dq_front (deque s1) \<le> dq_front (deque s0) + 1 \<and>
      dq_front (deque s2) = dq_front (deque s1) \<and>
      dq_front (deque s3) = dq_front (deque s2) \<and>
      dq_rear (deque s1) = dq_rear (deque s0) \<and>
      dq_rear (deque s2) \<le> dq_rear (deque s1) \<and>
      dq_front (deque s2) - 1 \<le> dq_rear (deque s2) \<and>
      remove_out_of_window_reads 3 4 s0 [] = Inr (s1, r1) \<and>
      remove_smaller_from_back_reads [1, 3, - 1, - 3, 5, 3, 6, 7] 4 s1 r1 = Inr (s2, r2) \<and>
      output_if_window_seen_reads [1, 3, - 1, - 3, 5, 3, 6, 7] 3 4 s3 r2 = Inr (s, r3) \<and>
      (\<forall>(p, z)\<in>set r3. 0 \<le> p \<and> p < 8 \<and> 0 < z))"
  using deque_accesses_in_bounds[of 8 "[1, 3, - 1, - 3, 5, 3, 6, 7]" 3 4]
  by (simp add: INT_MAX_def)

end
